theory Spec2Isabelle
  imports Main "HOL-Library.Product_Lexorder"
begin

section \<open>Spans, tokens and compound tokens\<close>

text \<open>
  A span is a half-open interval of text positions. The source reads the fields
  \<^verbatim>\<open>start\<close>, \<^verbatim>\<open>end\<close> and \<^verbatim>\<open>text\<close>; the last two are Isabelle keywords and carry a
  prime here. A token is a span with its text; a compound token is the
  \<^verbatim>\<open>EnvelopingSpan\<close> the tagger builds over a slice of the token layer, with the two output
  attributes \<^verbatim>\<open>type\<close> (a tuple of strings) and \<^verbatim>\<open>normalized\<close> (a string or \<^verbatim>\<open>None\<close>).
\<close>

record span =
  start :: int
  end' :: int

record token = span +
  text' :: string

record compound = span +
  spans :: "token list"
  type' :: "string list"
  normalized :: "string option"

datatype error =
    IndexError
  | NotImplementedError string
  | UnboundLocalError string
  | AttributeError string

text \<open>
  \<^verbatim>\<open>EnvelopingSpan(spans=...)\<close>: the interval runs from the first component's start to the
  last component's end. The tagger only ever builds it over a non-empty slice of tokens
  (see \<open>slice_nonempty\<close> below), so the first and the last component exist.
\<close>

definition EnvelopingSpan :: "token list \<Rightarrow> compound" where
  "EnvelopingSpan sps =
     \<lparr>start = start (hd sps), end' = end' (last sps),
      spans = sps, type' = [], normalized = None\<rparr>"

text \<open>Python's \<^verbatim>\<open>xs[i:j]\<close>, negative bounds counting from the end, both clamped.\<close>

definition slice :: "'a list \<Rightarrow> int \<Rightarrow> int \<Rightarrow> 'a list" where
  "slice xs i j =
     (let n = int (length xs);
          a = (if i < 0 then max 0 (n + i) else min i n);
          b = (if j < 0 then max 0 (n + j) else min j n)
      in drop (nat a) (take (nat b) xs))"

text \<open>Python's \<^verbatim>\<open>separator in snippet\<close> on strings.\<close>

fun contains :: "string \<Rightarrow> string \<Rightarrow> bool" where
  "contains [] separator = (separator = [])"
| "contains (c # cs) separator =
     (take (length separator) (c # cs) = separator \<or> contains cs separator)"

text \<open>
  The tagger's configuration. \<open>letters\<close> stands for the character class
  \<^verbatim>\<open>MACROS['LETTERS']\<close> behind \<^verbatim>\<open>_letter_pattern\<close>, and \<open>morph_normal\<close> for
  \<^verbatim>\<open>MorphAnalyzedToken(word).normal\<close> (\<open>None\<close> when the normal form is the token itself);
  both live outside the tagger's module and are parameters here.
\<close>

record tagger =
  custom_abbreviations :: "string list"
  do_not_join_on_strings :: "string list"
  tag_hyphenations :: bool
  ignored_words :: "string list"
  letters :: "char \<Rightarrow> bool"
  morph_normal :: "string \<Rightarrow> string option"

text \<open>
  The check that precedes every insertion: some disallowed separator occurs in the
  candidate's text (an empty separator list disables the check).
\<close>

definition discard :: "tagger \<Rightarrow> string \<Rightarrow> bool" where
  "discard self snippet = list_ex (contains snippet) (do_not_join_on_strings self)"

subsection \<open>\<^verbatim>\<open>_get_covered_tokens\<close>\<close>


subsection \<open>\<^verbatim>\<open>_remove_overlapped_spans\<close>\<close>

definition remove_overlapped_spans ::
  "'a span_scheme list \<Rightarrow> 'b span_scheme list \<Rightarrow> 'b span_scheme list" where
  "remove_overlapped_spans compound_token_spans regular_spans =
     filter (\<lambda>regular_span.
        \<not> list_ex (\<lambda>compound_token_span.
             start compound_token_span \<le> start regular_span \<and>
             end' regular_span \<le> end' compound_token_span) compound_token_spans)
       regular_spans"

subsection \<open>\<^verbatim>\<open>_insert_span\<close>\<close>

text \<open>
  The \<^verbatim>\<open>while\<close> loop walks the list from index 0. The function below runs it on the part
  of the list not yet visited and returns that part with the span inserted (if it was),
  the flag \<^verbatim>\<open>inserted\<close> and the flag \<^verbatim>\<open>is_duplicate\<close>. A pass that does not insert moves on
  to the next index; the insertion ends the loop (\<^verbatim>\<open>break\<close>).
\<close>

fun insert_span_loop ::
  "'a span_scheme \<Rightarrow> bool \<Rightarrow> bool \<Rightarrow> 'a span_scheme list
     \<Rightarrow> 'a span_scheme list \<times> bool \<times> bool" where
  "insert_span_loop span discard_duplicate is_duplicate [] = ([], False, is_duplicate)"
| "insert_span_loop span discard_duplicate is_duplicate (x # xs) =
     (let is_duplicate = (if start span = start x \<and> end' span = end' x then True
                          else is_duplicate)
      in if end' span \<le> start x \<and>
            (\<not> discard_duplicate \<or> (discard_duplicate \<and> \<not> is_duplicate))
         then (span # x # xs, True, is_duplicate)
         else (case insert_span_loop span discard_duplicate is_duplicate xs of
                 (ys, inserted, is_duplicate) \<Rightarrow> (x # ys, inserted, is_duplicate)))"

definition insert_span ::
  "'a span_scheme \<Rightarrow> 'a span_scheme list \<Rightarrow> bool \<Rightarrow> 'a span_scheme list" where
  "insert_span span span_list discard_duplicate =
     (case insert_span_loop span discard_duplicate False span_list of
        (ys, inserted, is_duplicate) \<Rightarrow>
          if \<not> inserted then
            (if \<not> discard_duplicate \<or> (discard_duplicate \<and> \<not> is_duplicate)
             then ys @ [span] else ys)
          else ys)"

text \<open>Ascending order by \<open>(start, end)\<close>, and an interval that is not inverted.\<close>

definition span_le :: "'a span_scheme \<Rightarrow> 'a span_scheme \<Rightarrow> bool" where
  "span_le a b = (start a < start b \<or> (start a = start b \<and> end' a \<le> end' b))"

definition well_formed :: "'a span_scheme \<Rightarrow> bool" where
  "well_formed a = (start a \<le> end' a)"

definition same_interval :: "'a span_scheme \<Rightarrow> 'a span_scheme \<Rightarrow> bool" where
  "same_interval a b = (start a = start b \<and> end' a = end' b)"

subsection \<open>\<^verbatim>\<open>_try_to_add_custom_abbreviation\<close>\<close>

text \<open>
  Lines 405 to 416: the candidate built for an abbreviation found at \<open>token_id\<close>.
  \<^verbatim>\<open>next_token\<close> is read only when \<^verbatim>\<open>token_id+1 < len(tokens)-1\<close>.
\<close>

definition custom_abbreviation_span :: "token list \<Rightarrow> nat \<Rightarrow> compound" where
  "custom_abbreviation_span tokens token_id =
     (let token = text' (tokens ! token_id);
          next_token = (if int token_id + 1 < int (length tokens) - 1
                        then text' (tokens ! (token_id + 1)) else [])
      in if next_token = ''.''
         then (EnvelopingSpan (slice tokens (int token_id) (int token_id + 2)))
                \<lparr>type' := [''non_ending_abbreviation''],
                 normalized := Some (token @ next_token)\<rparr>
         else (EnvelopingSpan (slice tokens (int token_id) (int token_id + 1)))
                \<lparr>type' := [''non_ending_abbreviation''], normalized := None\<rparr>)"

definition try_to_add_custom_abbreviation ::
  "tagger \<Rightarrow> string \<Rightarrow> token list \<Rightarrow> nat \<Rightarrow> compound list \<Rightarrow> error + compound list" where
  "try_to_add_custom_abbreviation self raw_text tokens token_id compound_tokens_lists =
     (if length tokens \<le> token_id then Inl IndexError
      else if text' (tokens ! token_id) \<notin> set (custom_abbreviations self)
      then Inr compound_tokens_lists
      else
        let spl = custom_abbreviation_span tokens token_id in
        if discard self (slice raw_text (start spl) (end' spl))
        then Inr compound_tokens_lists
        else if compound_tokens_lists = [] then Inr [spl]
        else
          let last_compound = last compound_tokens_lists;
              last_type = type' last_compound in
          if start last_compound < start spl \<and> end' spl < end' last_compound
          then Inr compound_tokens_lists
          else if end' last_compound = end' spl \<and>
                  ''non_ending_abbreviation'' \<notin> set last_type
          then Inr (butlast compound_tokens_lists @ [spl])
          else if end' last_compound = end' spl \<and>
                  ''non_ending_abbreviation'' \<in> set last_type
          then Inr compound_tokens_lists
          else Inr (compound_tokens_lists @ [spl]))"

subsection \<open>The token sweep of \<^verbatim>\<open>_make_layer\<close>\<close>

text \<open>
  An entry of \<^verbatim>\<open>tokenization_hints\<close>: the key \<^verbatim>\<open>'end'\<close> is always there, the keys
  \<^verbatim>\<open>'pattern_type'\<close> and \<^verbatim>\<open>'normalized'\<close> may be absent, and the value stored under
  \<^verbatim>\<open>'normalized'\<close> may itself be \<^verbatim>\<open>None\<close>.
\<close>

record end_node =
  hint_end :: int
  hint_pattern_type :: "string option"
  hint_normalized :: "string option option"

text \<open>
  Lines 282 to 287: the scan for the token that ends where the hint ends, run on the
  tokens from index \<open>j\<close> on. A later match overwrites an earlier one; the scan stops at
  the first token that starts after the hint's end.
\<close>

fun scan_end_token :: "token list \<Rightarrow> int \<Rightarrow> nat \<Rightarrow> nat option \<Rightarrow> nat option" where
  "scan_end_token [] hint j end_token_index = end_token_index"
| "scan_end_token (t # ts) hint j end_token_index =
     (if end' t = hint then scan_end_token ts hint (j + 1) (Some j)
      else if hint < start t then end_token_index
      else scan_end_token ts hint (j + 1) end_token_index)"

text \<open>Lines 290 to 296: the candidate over the token slice, typed by the hint.\<close>

definition hint_span :: "end_node \<Rightarrow> token list \<Rightarrow> compound" where
  "hint_span node sps =
     (EnvelopingSpan sps)
       \<lparr>type' := [case hint_pattern_type node of
                     None \<Rightarrow> ''tokenization_hint'' | Some p \<Rightarrow> p],
        normalized := (case hint_normalized node of None \<Rightarrow> None | Some n \<Rightarrow> n)\<rparr>"

text \<open>
  Lines 280 to 307. \<^verbatim>\<open>if end_token_index:\<close> tests the index for truth, and the index 0
  is false in Python just as \<^verbatim>\<open>None\<close> is.
\<close>

definition apply_tokenization_hint ::
  "tagger \<Rightarrow> (int \<rightharpoonup> end_node) \<Rightarrow> token list \<Rightarrow> nat \<Rightarrow> compound list \<Rightarrow> compound list" where
  "apply_tokenization_hint self tokenization_hints tokens i compound_tokens_lists =
     (case tokenization_hints (start (tokens ! i)) of
        None \<Rightarrow> compound_tokens_lists
      | Some node \<Rightarrow>
          (case scan_end_token (drop i tokens) (hint_end node) i None of
             None \<Rightarrow> compound_tokens_lists
           | Some end_token_index \<Rightarrow>
               if end_token_index = 0 then compound_tokens_lists
               else
                 let spl = hint_span node
                             (slice tokens (int i) (int end_token_index + 1))
                 in if custom_abbreviations self \<noteq> [] \<and> compound_tokens_lists \<noteq> [] \<and>
                       start (last compound_tokens_lists) \<le> start spl \<and>
                       start spl < end' (last compound_tokens_lists)
                    then compound_tokens_lists
                    else compound_tokens_lists @ [spl]))"

text \<open>
  The hyphenation status: \<^verbatim>\<open>None\<close> (idle), \<^verbatim>\<open>'-'\<close> (a hyphen was seen),
  \<^verbatim>\<open>'second'\<close> (a token after the hyphen was seen) and \<^verbatim>\<open>'end'\<close>.
\<close>

datatype hyphenation = Hyphen | Second | End

text \<open>
  Lines 311 to 325: the new status and the new \<^verbatim>\<open>hyphenation_start\<close>. \<^verbatim>\<open>last_end\<close> is
  \<^verbatim>\<open>None\<close> before the first token, and \<^verbatim>\<open>None == token_span.start\<close> is false.
\<close>

definition hyphenation_transition ::
  "hyphenation option \<Rightarrow> nat \<Rightarrow> int option \<Rightarrow> token \<Rightarrow> nat \<Rightarrow> hyphenation option \<times> nat" where
  "hyphenation_transition hyphenation_status hyphenation_start last_end token_span i =
     (case hyphenation_status of
        None \<Rightarrow>
          if last_end = Some (start token_span) \<and> text' token_span = ''-''
          then (Some Hyphen, hyphenation_start) else (None, i)
      | Some Hyphen \<Rightarrow>
          if last_end = Some (start token_span)
          then (Some Second, hyphenation_start) else (Some End, hyphenation_start)
      | Some Second \<Rightarrow>
          if last_end = Some (start token_span) \<and> text' token_span = ''-''
          then (Some Hyphen, hyphenation_start) else (Some End, hyphenation_start)
      | Some End \<Rightarrow> (Some End, hyphenation_start))"

text \<open>\<^verbatim>\<open>_normalize_word_with_hyphens\<close>.\<close>

definition normalize_word_with_hyphens :: "tagger \<Rightarrow> string \<Rightarrow> string option" where
  "normalize_word_with_hyphens self word_text =
     (if word_text \<in> set (ignored_words self) then None else morph_normal self word_text)"

text \<open>
  The variables the sweep carries from one token to the next. \<^verbatim>\<open>hyphenation_start\<close> is
  unbound until the first token has been seen; the first pass always binds it (the status
  is \<^verbatim>\<open>None\<close> and \<^verbatim>\<open>last_end\<close> is \<^verbatim>\<open>None\<close>), so the initial value here is never read.
\<close>

record sweep_state =
  hyphenation_status :: "hyphenation option"
  hyphenation_start :: nat
  last_end :: "int option"
  compound_tokens_lists :: "compound list"

text \<open>Lines 326 to 342: a finished run becomes a candidate, and the machine is reset.\<close>

definition finish_hyphenation ::
  "tagger \<Rightarrow> string \<Rightarrow> token list \<Rightarrow> nat \<Rightarrow> sweep_state \<Rightarrow> sweep_state" where
  "finish_hyphenation self raw_text tokens i st =
     (if hyphenation_status st = Some End \<and> hyphenation_start st + 1 < i then
        let hyp_start = start (tokens ! hyphenation_start st);
            hyp_end = end' (tokens ! (i - 1));
            text_snippet = slice raw_text hyp_start hyp_end;
            found =
              (if list_ex (letters self) text_snippet
               then [(EnvelopingSpan
                        (slice tokens (int (hyphenation_start st)) (int i)))
                       \<lparr>type' := [''hyphenation''],
                        normalized := normalize_word_with_hyphens self text_snippet\<rparr>]
               else [])
        in st\<lparr>hyphenation_status := None, hyphenation_start := i,
               compound_tokens_lists := compound_tokens_lists st @ found\<rparr>
      else st)"

text \<open>One pass of the loop over the tokens (lines 271 to 343), for the token at index \<open>i\<close>.\<close>

definition sweep_step ::
  "tagger \<Rightarrow> string \<Rightarrow> (int \<rightharpoonup> end_node) \<Rightarrow> token list \<Rightarrow> nat \<Rightarrow> sweep_state
     \<Rightarrow> error + sweep_state" where
  "sweep_step self raw_text tokenization_hints tokens i st =
     (case (if custom_abbreviations self \<noteq> []
            then try_to_add_custom_abbreviation self raw_text tokens i
                   (compound_tokens_lists st)
            else Inr (compound_tokens_lists st)) of
        Inl e \<Rightarrow> Inl e
      | Inr cs \<Rightarrow>
          let token_span = tokens ! i;
              st1 = st\<lparr>compound_tokens_lists :=
                         apply_tokenization_hint self tokenization_hints tokens i cs\<rparr>;
              st2 = (if tag_hyphenations self then
                       (case hyphenation_transition (hyphenation_status st1)
                               (hyphenation_start st1) (last_end st1) token_span i of
                          (status, hstart) \<Rightarrow>
                            finish_hyphenation self raw_text tokens i
                              (st1\<lparr>hyphenation_status := status,
                                    hyphenation_start := hstart\<rparr>))
                     else st1)
          in Inr (st2\<lparr>last_end := Some (end' token_span)\<rparr>))"

fun sweep_from ::
  "tagger \<Rightarrow> string \<Rightarrow> (int \<rightharpoonup> end_node) \<Rightarrow> token list \<Rightarrow> nat list \<Rightarrow> sweep_state
     \<Rightarrow> error + sweep_state" where
  "sweep_from self raw_text tokenization_hints tokens [] st = Inr st"
| "sweep_from self raw_text tokenization_hints tokens (i # is) st =
     (case sweep_step self raw_text tokenization_hints tokens i st of
        Inl e \<Rightarrow> Inl e
      | Inr st' \<Rightarrow> sweep_from self raw_text tokenization_hints tokens is st')"

definition sweep ::
  "tagger \<Rightarrow> string \<Rightarrow> (int \<rightharpoonup> end_node) \<Rightarrow> token list \<Rightarrow> error + sweep_state" where
  "sweep self raw_text tokenization_hints tokens =
     sweep_from self raw_text tokenization_hints tokens [0..<length tokens]
       \<lparr>hyphenation_status = None, hyphenation_start = 0, last_end = None,
        compound_tokens_lists = []\<rparr>"

text \<open>
  A configuration and a token constructor for the concrete runs below: the separator
  list is the constructor's default \<^verbatim>\<open>('\n\n',)\<close>, hyphenation tagging is on, no word is
  ignored, the letters are the ASCII letters and the normaliser changes nothing.
\<close>

definition default_tagger :: "string list \<Rightarrow> tagger" where
  "default_tagger abbreviations =
     \<lparr>custom_abbreviations = abbreviations,
      do_not_join_on_strings = [[CHR 0x0A, CHR 0x0A]],
      tag_hyphenations = True, ignored_words = [],
      letters = (\<lambda>c. c \<in> set ''abcdefghijklmnopqrstuvwxyzABCDEFGHIJKLMNOPQRSTUVWXYZ''),
      morph_normal = (\<lambda>w. None)\<rparr>"

definition Token :: "int \<Rightarrow> int \<Rightarrow> string \<Rightarrow> token" where
  "Token a b s = \<lparr>start = a, end' = b, text' = s\<rparr>"

section \<open>Documents and \<^verbatim>\<open>excerpt\<close>\<close>

text \<open>
  The classes \<^verbatim>\<open>Text\<close>, \<^verbatim>\<open>Layer\<close>, \<^verbatim>\<open>Span\<close> and \<^verbatim>\<open>SpanList\<close> of \<^verbatim>\<open>estnltk.text\<close> are
  not among the sources; \<^verbatim>\<open>excerpt\<close> is. What \<^verbatim>\<open>excerpt\<close> reads of a span of the document
  is its identity (spans are the keys of \<^verbatim>\<open>map_spans\<close>), its \<^verbatim>\<open>start\<close> and \<^verbatim>\<open>end\<close>, its
  attributes (\<^verbatim>\<open>getattr\<close>), the identity of its \<^verbatim>\<open>parent\<close> and the objects that iterating
  over it yields: the annotations of a span of an ambiguous layer, the components of a
  span of an enveloping layer.
\<close>

datatype val = VNone | VInt int | VStr string

datatype layer_span =
  LayerSpan (ident: nat) (start_of: int) (end_of: int) (attrs_of: "(string \<times> val) list")
    (parent_of: "nat option") (items_of: "layer_span list")

text \<open>
  The spans \<^verbatim>\<open>excerpt\<close> creates: \<^verbatim>\<open>Span(start, end)\<close>, \<^verbatim>\<open>span_parent.mark(layer_name)\<close>
  and \<^verbatim>\<open>SpanList(layer=new_layer)\<close> with the spans appended to it, each with the
  attributes set on it.
\<close>

datatype new_span =
    Span int int "(string \<times> val) list"
  | Mark new_span string "(string \<times> val) list"
  | SpanList "new_span list" "(string \<times> val) list"

record 'a layer =
  name :: string
  attributes :: "string list"
  parent :: "string option"
  enveloping :: "string option"
  ambiguous :: bool
  base :: string
  layer_spans :: "'a list"

text \<open>
  Modelled from the spec: the class \<^verbatim>\<open>Text\<close> is missing. A document owns a base text and
  its layers; \<^verbatim>\<open>list_layers()\<close> yields the layers in the order \<^verbatim>\<open>excerpt\<close> visits them,
  and \<^verbatim>\<open>new_text[layer_name] = new_layer\<close> binds a further layer.
\<close>

record 'a document =
  base_text :: string
  list_layers :: "'a layer list"

text \<open>Python's truth value of \<^verbatim>\<open>layer.parent\<close> and \<^verbatim>\<open>layer.enveloping\<close>: a non-empty name.\<close>

definition truthy :: "string option \<Rightarrow> bool" where
  "truthy x = (case x of None \<Rightarrow> False | Some n \<Rightarrow> n \<noteq> [])"

text \<open>\<^verbatim>\<open>getattr(obj, attr)\<close> raises \<^verbatim>\<open>AttributeError\<close> when the object has no such attribute.\<close>

definition getattr :: "(string \<times> val) list \<Rightarrow> string \<Rightarrow> error + val" where
  "getattr obj attr =
     (case map_of obj attr of None \<Rightarrow> Inl (AttributeError attr) | Some v \<Rightarrow> Inr v)"

text \<open>\<^verbatim>\<open>for attr in attributes: setattr(new_span, attr, getattr(obj, attr))\<close>.\<close>

fun copy_attributes :: "string list \<Rightarrow> (string \<times> val) list \<Rightarrow> error + (string \<times> val) list" where
  "copy_attributes [] obj = Inr []"
| "copy_attributes (attr # rest) obj =
     (case getattr obj attr of
        Inl e \<Rightarrow> Inl e
      | Inr v \<Rightarrow>
          (case copy_attributes rest obj of
             Inl e \<Rightarrow> Inl e
           | Inr copied \<Rightarrow> Inr ((attr, v) # copied)))"

text \<open>
  Line 66 and 67: in the enveloping branch the attributes are read from the local
  variable \<^verbatim>\<open>sp\<close>. It is bound only by the inner loop of the ambiguous attached branch
  (line 40); reading it while unbound raises \<^verbatim>\<open>UnboundLocalError\<close>. With no attribute
  declared the loop body never runs and nothing is read.
\<close>

definition copy_attributes_of_sp ::
  "string list \<Rightarrow> layer_span option \<Rightarrow> error + (string \<times> val) list" where
  "copy_attributes_of_sp attrs sp =
     (if attrs = [] then Inr []
      else case sp of
             None \<Rightarrow> Inl (UnboundLocalError ''sp'')
           | Some s \<Rightarrow> copy_attributes attrs (attrs_of s))"

text \<open>
  The window test shared by the plain and the enveloping branch: \<open>None\<close> stands for
  \<^verbatim>\<open>continue\<close>, otherwise the bounds in the coordinates of the document.
\<close>

definition window :: "bool \<Rightarrow> int \<Rightarrow> int \<Rightarrow> int \<Rightarrow> int \<Rightarrow> (int \<times> int) option" where
  "window trim_overlapping start_pos end_pos span_start span_end =
     (if trim_overlapping then
        (let span_start = max span_start start_pos;
             span_end = min span_end end_pos
         in if span_start \<ge> span_end then None else Some (span_start, span_end))
      else if span_start < start_pos \<or> end_pos < span_end then None
      else Some (span_start, span_end))"

text \<open>
  The state of the loop over the layers: \<^verbatim>\<open>map_spans\<close>, the local variable \<^verbatim>\<open>sp\<close>
  (\<open>None\<close> while unbound) and the layers bound in \<^verbatim>\<open>new_text\<close> so far.
\<close>

record excerpt_state =
  map_spans :: "nat \<rightharpoonup> new_span"
  sp :: "layer_span option"
  new_layers :: "new_span layer list"

text \<open>
  Lines 40 to 44, the loop over the annotations of one span of an ambiguous attached
  layer. Modelled from the spec: \<^verbatim>\<open>Span.mark\<close> is missing; it creates the child span of
  \<^verbatim>\<open>span_parent\<close> in the layer \<^verbatim>\<open>layer_name\<close> of the new text, with the parent's interval.
  The triple is \<^verbatim>\<open>map_spans\<close>, the new layer's spans and \<^verbatim>\<open>sp\<close>.
\<close>

fun mark_annotations ::
  "string \<Rightarrow> string list \<Rightarrow> new_span \<Rightarrow> layer_span list
     \<Rightarrow> (nat \<rightharpoonup> new_span) \<times> new_span list \<times> layer_span option
     \<Rightarrow> error + (nat \<rightharpoonup> new_span) \<times> new_span list \<times> layer_span option" where
  "mark_annotations layer_name attrs span_parent [] acc = Inr acc"
| "mark_annotations layer_name attrs span_parent (s # rest) (m, out, v) =
     (case copy_attributes attrs (attrs_of s) of
        Inl e \<Rightarrow> Inl e
      | Inr copied \<Rightarrow>
          let new_span = Mark span_parent layer_name copied
          in mark_annotations layer_name attrs span_parent rest
               (m(ident s \<mapsto> new_span), out @ [new_span], Some s))"

text \<open>Lines 37 to 44. \<^verbatim>\<open>map_spans.get(span.parent)\<close> is \<^verbatim>\<open>None\<close> for a span without parent.\<close>

fun attached_spans ::
  "string \<Rightarrow> string list \<Rightarrow> layer_span list
     \<Rightarrow> (nat \<rightharpoonup> new_span) \<times> new_span list \<times> layer_span option
     \<Rightarrow> error + (nat \<rightharpoonup> new_span) \<times> new_span list \<times> layer_span option" where
  "attached_spans layer_name attrs [] acc = Inr acc"
| "attached_spans layer_name attrs (span # rest) (m, out, v) =
     (case (case parent_of span of None \<Rightarrow> None | Some p \<Rightarrow> m p) of
        None \<Rightarrow> attached_spans layer_name attrs rest (m, out, v)
      | Some span_parent \<Rightarrow>
          (case mark_annotations layer_name attrs span_parent (items_of span) (m, out, v) of
             Inl e \<Rightarrow> Inl e
           | Inr acc \<Rightarrow> attached_spans layer_name attrs rest acc))"

text \<open>Lines 62 to 65: the new spans of the components that were kept.\<close>

fun mapped_components :: "(nat \<rightharpoonup> new_span) \<Rightarrow> layer_span list \<Rightarrow> new_span list" where
  "mapped_components m [] = []"
| "mapped_components m (s # rest) =
     (case m (ident s) of
        None \<Rightarrow> mapped_components m rest
      | Some p \<Rightarrow> p # mapped_components m rest)"

text \<open>
  Lines 51 to 69. Modelled from the spec: \<^verbatim>\<open>Layer.add_span\<close> is missing; the spans of a
  layer come in ascending order, so the new span goes to the end of the new layer.
\<close>

fun enveloping_spans ::
  "string list \<Rightarrow> bool \<Rightarrow> int \<Rightarrow> int \<Rightarrow> layer_span option \<Rightarrow> layer_span list
     \<Rightarrow> (nat \<rightharpoonup> new_span) \<times> new_span list
     \<Rightarrow> error + (nat \<rightharpoonup> new_span) \<times> new_span list" where
  "enveloping_spans attrs trim_overlapping start_pos end_pos v [] acc = Inr acc"
| "enveloping_spans attrs trim_overlapping start_pos end_pos v (span # rest) (m, out) =
     (case window trim_overlapping start_pos end_pos (start_of span) (end_of span) of
        None \<Rightarrow> enveloping_spans attrs trim_overlapping start_pos end_pos v rest (m, out)
      | Some w \<Rightarrow>
          (case copy_attributes_of_sp attrs v of
             Inl e \<Rightarrow> Inl e
           | Inr copied \<Rightarrow>
               let new_span = SpanList (mapped_components m (items_of span)) copied
               in enveloping_spans attrs trim_overlapping start_pos end_pos v rest
                    (m(ident span \<mapsto> new_span), out @ [new_span])))"

text \<open>Lines 74 to 88.\<close>

fun plain_spans ::
  "string list \<Rightarrow> bool \<Rightarrow> int \<Rightarrow> int \<Rightarrow> layer_span list
     \<Rightarrow> (nat \<rightharpoonup> new_span) \<times> new_span list
     \<Rightarrow> error + (nat \<rightharpoonup> new_span) \<times> new_span list" where
  "plain_spans attrs trim_overlapping start_pos end_pos [] acc = Inr acc"
| "plain_spans attrs trim_overlapping start_pos end_pos (span # rest) (m, out) =
     (case window trim_overlapping start_pos end_pos (start_of span) (end_of span) of
        None \<Rightarrow> plain_spans attrs trim_overlapping start_pos end_pos rest (m, out)
      | Some (span_start, span_end) \<Rightarrow>
          (case copy_attributes attrs (attrs_of span) of
             Inl e \<Rightarrow> Inl e
           | Inr copied \<Rightarrow>
               let new_span = Span (span_start - start_pos) (span_end - start_pos) copied
               in plain_spans attrs trim_overlapping start_pos end_pos rest
                    (m(ident span \<mapsto> new_span), out @ [new_span])))"

text \<open>The new layer of lines 27 to 33, with the spans the branch has produced.\<close>

definition Layer :: "layer_span layer \<Rightarrow> new_span list \<Rightarrow> new_span layer" where
  "Layer l out =
     \<lparr>name = name l, attributes = attributes l, parent = parent l,
      enveloping = enveloping l, ambiguous = ambiguous l, base = base l,
      layer_spans = out\<rparr>"

text \<open>Lines 23 to 88: the body of the loop, for a layer that is kept.\<close>

definition excerpt_layer ::
  "int \<Rightarrow> int \<Rightarrow> bool \<Rightarrow> layer_span layer \<Rightarrow> excerpt_state \<Rightarrow> error + excerpt_state" where
  "excerpt_layer start_pos end_pos trim_overlapping l st =
     (if truthy (parent l) then
        (if ambiguous l then
           (case attached_spans (name l) (attributes l) (layer_spans l)
                   (map_spans st, [], sp st) of
              Inl e \<Rightarrow> Inl e
            | Inr (m, out, v) \<Rightarrow>
                Inr \<lparr>map_spans = m, sp = v, new_layers = new_layers st @ [Layer l out]\<rparr>)
         else Inl (NotImplementedError (''not ambiguous layer with parent: '' @ name l)))
      else if truthy (enveloping l) then
        (if ambiguous l then
           Inl (NotImplementedError (''ambiguous enveloping layer: '' @ name l))
         else
           (case enveloping_spans (attributes l) trim_overlapping start_pos end_pos (sp st)
                   (layer_spans l) (map_spans st, []) of
              Inl e \<Rightarrow> Inl e
            | Inr (m, out) \<Rightarrow>
                Inr \<lparr>map_spans = m, sp = sp st,
                     new_layers = new_layers st @ [Layer l out]\<rparr>))
      else
        (if ambiguous l then Inl (NotImplementedError (''ambiguous layer: '' @ name l))
         else
           (case plain_spans (attributes l) trim_overlapping start_pos end_pos
                   (layer_spans l) (map_spans st, []) of
              Inl e \<Rightarrow> Inl e
            | Inr (m, out) \<Rightarrow>
                Inr \<lparr>map_spans = m, sp = sp st,
                     new_layers = new_layers st @ [Layer l out]\<rparr>)))"

text \<open>Lines 20 to 22: \<^verbatim>\<open>layers_to_keep\<close> is \<^verbatim>\<open>None\<close> or a tuple of layer names.\<close>

definition kept :: "string list option \<Rightarrow> 'a layer \<Rightarrow> bool" where
  "kept layers_to_keep l =
     (case layers_to_keep of None \<Rightarrow> True | Some names \<Rightarrow> name l \<in> set names)"

fun excerpt_layers ::
  "int \<Rightarrow> int \<Rightarrow> string list option \<Rightarrow> bool \<Rightarrow> layer_span layer list \<Rightarrow> excerpt_state
     \<Rightarrow> error + excerpt_state" where
  "excerpt_layers start_pos end_pos layers_to_keep trim_overlapping [] st = Inr st"
| "excerpt_layers start_pos end_pos layers_to_keep trim_overlapping (l # ls) st =
     (if \<not> kept layers_to_keep l
      then excerpt_layers start_pos end_pos layers_to_keep trim_overlapping ls st
      else case excerpt_layer start_pos end_pos trim_overlapping l st of
             Inl e \<Rightarrow> Inl e
           | Inr st' \<Rightarrow>
               excerpt_layers start_pos end_pos layers_to_keep trim_overlapping ls st')"

definition initial_state :: excerpt_state where
  "initial_state = \<lparr>map_spans = Map.empty, sp = None, new_layers = []\<rparr>"

definition excerpt ::
  "layer_span document \<Rightarrow> int \<Rightarrow> int \<Rightarrow> string list option \<Rightarrow> bool
     \<Rightarrow> error + new_span document" where
  "excerpt text_obj start_pos end_pos layers_to_keep trim_overlapping =
     (case excerpt_layers start_pos end_pos layers_to_keep trim_overlapping
             (list_layers text_obj) initial_state of
        Inl e \<Rightarrow> Inl e
      | Inr st \<Rightarrow>
          Inr \<lparr>base_text = slice (base_text text_obj) start_pos end_pos,
               list_layers = new_layers st\<rparr>)"

section \<open>\<^verbatim>\<open>GapTagger\<close>\<close>

text \<open>
  Modelled from the spec: the class \<^verbatim>\<open>GapTagger\<close> of \<^verbatim>\<open>estnltk.taggers\<close> is missing, only
  its test is among the sources. The spec's algorithm: merge the intervals of all source
  layers into one list sorted by \<open>(start, end)\<close>, then walk the complement from position 0,
  emitting each non-empty interval between the position reached and the next covered
  start, and the rest up to the length of the text. The optional \<^verbatim>\<open>trim\<close> and \<^verbatim>\<open>decorate\<close>
  callbacks are left out: the run below passes neither.
\<close>

fun merge_span :: "span \<Rightarrow> span list \<Rightarrow> span list" where
  "merge_span s [] = [s]"
| "merge_span s (x # xs) = (if span_le s x then s # x # xs else x # merge_span s xs)"

definition merge_layers :: "span list list \<Rightarrow> span list" where
  "merge_layers source_layers = foldr merge_span (concat source_layers) []"

fun walk_complement :: "int \<Rightarrow> span list \<Rightarrow> int \<Rightarrow> span list" where
  "walk_complement pos [] text_length =
     (if pos < text_length then [\<lparr>start = pos, end' = text_length\<rparr>] else [])"
| "walk_complement pos (s # rest) text_length =
     (if pos < start s then [\<lparr>start = pos, end' = start s\<rparr>] else [])
     @ walk_complement (max pos (end' s)) rest text_length"

definition GapTagger :: "string \<Rightarrow> span list list \<Rightarrow> span list" where
  "GapTagger raw_text source_layers =
     walk_complement 0 (merge_layers source_layers) (int (length raw_text))"

text \<open>
  The text of the test, one \<open>char\<close> for each code point (\<open>0xDC\<close> is the capital U with
  diaeresis), and the two layers the test builds.
\<close>

definition test_text :: string where
  "test_text = CHR 0xDC # ''ks kaks kolm neli viis kuus seitse.''"

definition layer_1 :: "span list" where
  "layer_1 = [\<lparr>start = 4, end' = 8\<rparr>, \<lparr>start = 9, end' = 13\<rparr>, \<lparr>start = 24, end' = 28\<rparr>]"

definition layer_2 :: "span list" where
  "layer_2 = [\<lparr>start = 4, end' = 8\<rparr>, \<lparr>start = 9, end' = 18\<rparr>, \<lparr>start = 35, end' = 36\<rparr>]"

section \<open>\<^verbatim>\<open>resolve_conflicts\<close>\<close>

text \<open>
  Modelled from the spec: \<^verbatim>\<open>resolve_conflicts\<close> of \<^verbatim>\<open>estnltk.layer_operations\<close> is missing,
  only its call in the tagger is among the sources. The spec's words: among mutually
  overlapping spans the survivors are selected by the strategy, MAX or MIN (primed here, both names being taken in HOL), comparing the
  span lengths, ties broken by the priority attribute ascending when one is given; with
  \<^verbatim>\<open>keep_equal\<close> false an exact tie still yields only one survivor, the first encountered,
  with \<^verbatim>\<open>keep_equal\<close> true both are kept. The priority attribute is the function that reads
  it from a span.
\<close>

datatype strategy = MAX' | MIN'

definition conflict_key ::
  "strategy \<Rightarrow> ('a span_scheme \<Rightarrow> int) option \<Rightarrow> 'a span_scheme \<Rightarrow> int \<times> int" where
  "conflict_key conflict_resolving_strategy priority_attribute s =
     ((case conflict_resolving_strategy of
         MAX' \<Rightarrow> - (end' s - start s)
       | MIN' \<Rightarrow> end' s - start s),
      (case priority_attribute of None \<Rightarrow> 0 | Some priority \<Rightarrow> priority s))"

definition overlap :: "'a span_scheme \<Rightarrow> 'a span_scheme \<Rightarrow> bool" where
  "overlap a b = (start a < end' b \<and> start b < end' a)"

text \<open>
  The spans are numbered in the order of the layer, so that two spans with the same
  interval and attributes remain two candidates. The candidates come best first, the
  first encountered first among equals. A candidate is dropped when a survivor overlaps
  it and is strictly better, or as good when \<^verbatim>\<open>keep_equal\<close> is false.
\<close>

fun select_survivors ::
  "('a span_scheme \<Rightarrow> int \<times> int) \<Rightarrow> bool \<Rightarrow> (nat \<times> 'a span_scheme) list
     \<Rightarrow> (nat \<times> 'a span_scheme) list \<Rightarrow> (nat \<times> 'a span_scheme) list" where
  "select_survivors key keep_equal survivors [] = survivors"
| "select_survivors key keep_equal survivors (c # cs) =
     (if list_ex (\<lambda>k. overlap (snd k) (snd c) \<and>
                       (\<not> keep_equal \<or> key (snd k) < key (snd c))) survivors
      then select_survivors key keep_equal survivors cs
      else select_survivors key keep_equal (survivors @ [c]) cs)"

text \<open>The survivors among numbered spans, in the order of the layer.\<close>

definition resolve_numbered ::
  "('a span_scheme \<Rightarrow> int \<times> int) \<Rightarrow> bool \<Rightarrow> (nat \<times> 'a span_scheme) list
     \<Rightarrow> (nat \<times> 'a span_scheme) list" where
  "resolve_numbered key keep_equal numbered =
     (let survivors =
            select_survivors key keep_equal [] (sort_key (\<lambda>p. key (snd p)) numbered)
      in filter (\<lambda>p. p \<in> set survivors) numbered)"

definition resolve_conflicts ::
  "strategy \<Rightarrow> ('a span_scheme \<Rightarrow> int) option \<Rightarrow> bool \<Rightarrow> 'a span_scheme list
     \<Rightarrow> 'a span_scheme list" where
  "resolve_conflicts conflict_resolving_strategy priority_attribute keep_equal layer_list =
     map snd (resolve_numbered (conflict_key conflict_resolving_strategy priority_attribute)
                keep_equal (enumerate 0 layer_list))"

section \<open>Attached layers in the spec's words\<close>


section \<open>An example document\<close>

text \<open>
  A small document for the concrete runs below: the text \<open>abc def\<close> with a plain layer
  of two tokens, a layer of one sentence enveloping them and declaring one attribute, a
  layer of morphological readings attached to the tokens (ambiguous or not), and an
  ambiguous plain layer.
\<close>

definition tokens_layer :: "layer_span layer" where
  "tokens_layer =
     \<lparr>name = ''tokens'', attributes = [], parent = None, enveloping = None,
      ambiguous = False, base = ''tokens'',
      layer_spans = [LayerSpan 1 0 3 [] None [], LayerSpan 2 4 7 [] None []]\<rparr>"

definition sentences_layer :: "layer_span layer" where
  "sentences_layer =
     \<lparr>name = ''sentences'', attributes = [''kind''], parent = None,
      enveloping = Some ''tokens'', ambiguous = False, base = ''sentences'',
      layer_spans =
        [LayerSpan 3 0 7 [(''kind'', VStr ''statement'')] None
           [LayerSpan 1 0 3 [] None [], LayerSpan 2 4 7 [] None []]]\<rparr>"

definition morph_layer :: "bool \<Rightarrow> layer_span layer" where
  "morph_layer is_ambiguous =
     \<lparr>name = ''morph'', attributes = [''lemma''], parent = Some ''tokens'',
      enveloping = None, ambiguous = is_ambiguous, base = ''tokens'',
      layer_spans =
        [LayerSpan 4 0 3 [] (Some 1)
           [LayerSpan 5 0 3 [(''lemma'', VStr ''abc'')] (Some 1) [],
            LayerSpan 6 0 3 [(''lemma'', VStr ''ab'')] (Some 1) []],
         LayerSpan 7 4 7 [] (Some 2)
           [LayerSpan 8 4 7 [(''lemma'', VStr ''def'')] (Some 2) []]]\<rparr>"

definition variants_layer :: "layer_span layer" where
  "variants_layer =
     \<lparr>name = ''variants'', attributes = [], parent = None, enveloping = None,
      ambiguous = True, base = ''variants'',
      layer_spans = [LayerSpan 9 0 3 [] None [LayerSpan 10 0 3 [] None []]]\<rparr>"

definition Text :: "layer_span layer list \<Rightarrow> layer_span document" where
  "Text ls = \<lparr>base_text = ''abc def'', list_layers = ls\<rparr>"

section \<open>The hint scan of the token sweep\<close>

lemma scan_acc_or_index:
  "scan_end_token ts h j acc = Some k \<Longrightarrow>
     acc = Some k \<or> (j \<le> k \<and> k < j + length ts \<and> end' (ts ! (k - j)) = h)"
proof (induction ts arbitrary: j acc)
  case Nil
  then show ?case by simp
next
  case (Cons t ts)
  show ?case
  proof (cases "end' t = h")
    case True
    with Cons.prems have "scan_end_token ts h (j + 1) (Some j) = Some k" by simp
    from Cons.IH [OF this] show ?thesis
    proof
      assume "Some j = Some k"
      with True show ?thesis by simp
    next
      assume a: "j + 1 \<le> k \<and> k < j + 1 + length ts \<and> end' (ts ! (k - (j + 1))) = h"
      then have "k - j = Suc (k - (j + 1))" by arith
      then have "(t # ts) ! (k - j) = ts ! (k - (j + 1))" by simp
      with a show ?thesis by auto
    qed
  next
    case False
    show ?thesis
    proof (cases "h < start t")
      case True
      with False Cons.prems show ?thesis by simp
    next
      case nb: False
      with False Cons.prems have "scan_end_token ts h (j + 1) acc = Some k" by simp
      from Cons.IH [OF this] show ?thesis
      proof
        assume "acc = Some k" then show ?thesis by simp
      next
        assume a: "j + 1 \<le> k \<and> k < j + 1 + length ts \<and> end' (ts ! (k - (j + 1))) = h"
        then have "k - j = Suc (k - (j + 1))" by arith
        then have "(t # ts) ! (k - j) = ts ! (k - (j + 1))" by simp
        with a show ?thesis by auto
      qed
    qed
  qed
qed

lemma scan_no_match:
  "\<forall>t\<in>set ts. end' t \<noteq> h \<Longrightarrow> scan_end_token ts h j acc = acc"
  by (induction ts arbitrary: j) auto

lemma scan_keeps_some:
  "\<exists>k. scan_end_token ts h j (Some a) = Some k"
  by (induction ts arbitrary: j a) auto

lemma scan_some_ge:
  assumes "a < j"
  shows "\<exists>k. scan_end_token ts h j (Some a) = Some k \<and> a \<le> k"
proof -
  obtain k where k: "scan_end_token ts h j (Some a) = Some k"
    using scan_keeps_some by blast
  from scan_acc_or_index [OF k] assms have "a \<le> k" by auto
  with k show ?thesis by blast
qed

lemma scan_finds_match:
  "sorted_wrt (\<lambda>a b. start a \<le> start b) ts \<Longrightarrow> \<forall>t\<in>set ts. start t \<le> end' t \<Longrightarrow>
   m < length ts \<Longrightarrow> end' (ts ! m) = h \<Longrightarrow>
   \<exists>k. scan_end_token ts h j acc = Some k \<and> j + m \<le> k"
proof (induction ts arbitrary: j acc m)
  case Nil
  then show ?case by simp
next
  case (Cons t ts)
  show ?case
  proof (cases m)
    case 0
    with Cons.prems have "end' t = h" by simp
    then have "scan_end_token (t # ts) h j acc = scan_end_token ts h (j + 1) (Some j)"
      by simp
    moreover obtain k where "scan_end_token ts h (j + 1) (Some j) = Some k" "j \<le> k"
      using scan_some_ge [of j "j + 1" ts h] by auto
    ultimately show ?thesis using 0 by auto
  next
    case (Suc m')
    with Cons.prems have m': "m' < length ts" "end' (ts ! m') = h" by auto
    from Cons.prems have s: "sorted_wrt (\<lambda>a b. start a \<le> start b) ts"
      and w: "\<forall>t\<in>set ts. start t \<le> end' t" by auto
    have "ts ! m' \<in> set ts" using m' by simp
    then have "start t \<le> start (ts ! m')" "start (ts ! m') \<le> end' (ts ! m')"
      using Cons.prems(1) w by auto
    with m' have "start t \<le> h" by simp
    then have nb: "\<not> h < start t" by simp
    show ?thesis
    proof (cases "end' t = h")
      case True
      from Cons.IH [OF s w m', of "j + 1" "Some j"] True Suc show ?thesis by auto
    next
      case False
      from Cons.IH [OF s w m', of "j + 1" acc] False nb Suc show ?thesis by auto
    qed
  qed
qed

lemma slice_nat: "slice xs (int i) (int j) = drop i (take j xs)"
  by (auto simp: slice_def Let_def min_def)

lemma slice_nat1: "slice xs (int i) (int j + 1) = drop i (take (j + 1) xs)"
  using slice_nat [of xs i "j + 1"] by (simp add: add.commute)

lemma slice_nat2: "slice xs (int i) (int i + 2) = drop i (take (i + 2) xs)"
  using slice_nat [of xs i "i + 2"] by (simp add: add.commute)

lemma hd_slice: "i \<le> k \<Longrightarrow> k < length xs \<Longrightarrow> hd (drop i (take (k + 1) xs)) = xs ! i"
  by (simp add: hd_drop_conv_nth)

lemma last_slice: "i \<le> k \<Longrightarrow> k < length xs \<Longrightarrow> last (drop i (take (k + 1) xs)) = xs ! k"
  by (simp add: take_Suc_conv_app_nth)

lemma hint_span_slice:
  assumes "i \<le> k" "k < length tokens"
  shows "hint_span node (slice tokens (int i) (int k + 1)) =
           \<lparr>start = start (tokens ! i), end' = end' (tokens ! k),
            spans = drop i (take (k + 1) tokens),
            type' = [case hint_pattern_type node of
                       None \<Rightarrow> ''tokenization_hint'' | Some p \<Rightarrow> p],
            normalized = (case hint_normalized node of None \<Rightarrow> None | Some n \<Rightarrow> n)\<rparr>"
  using assms hd_slice [OF assms] last_slice [OF assms]
  by (simp add: hint_span_def EnvelopingSpan_def slice_nat1)

text \<open>
  Claim C5, as amended. Let the token at index \<open>i\<close> start at a key of the hint index.
  If no token from \<open>i\<close> on ends where the hint ends, the queue is left as it is. If the
  tokens are in ascending order of start, none is inverted, and a token at an index
  \<open>j\<close> from \<open>i\<close> on, other than index 0, ends where the hint ends, then a candidate is
  appended to the queue unless custom abbreviations are configured and the starting token
  starts inside the last queued candidate: the candidate envelops the tokens from \<open>i\<close>
  through a token that ends where the hint ends, and carries the hint's type and
  normalized value. Nothing is said of a hint that ends with the token at index 0.
\<close>

theorem tokenization_hint_candidate:
  assumes "i < length tokens"
    and "tokenization_hints (start (tokens ! i)) = Some node"
  shows "((\<forall>j. i \<le> j \<and> j < length tokens \<longrightarrow> end' (tokens ! j) \<noteq> hint_end node) \<longrightarrow>
            apply_tokenization_hint self tokenization_hints tokens i cs = cs) \<and>
         (sorted_wrt (\<lambda>a b. start a \<le> start b) tokens \<and>
          (\<forall>t\<in>set tokens. start t \<le> end' t) \<and>
          i \<le> j \<and> j < length tokens \<and> 0 < j \<and> end' (tokens ! j) = hint_end node \<and>
          (custom_abbreviations self = [] \<or> cs = [] \<or>
           start (tokens ! i) < start (last cs) \<or> end' (last cs) \<le> start (tokens ! i)) \<longrightarrow>
            (\<exists>k. j \<le> k \<and> k < length tokens \<and> end' (tokens ! k) = hint_end node \<and>
               apply_tokenization_hint self tokenization_hints tokens i cs =
                 cs @ [\<lparr>start = start (tokens ! i), end' = hint_end node,
                        spans = drop i (take (k + 1) tokens),
                        type' = [case hint_pattern_type node of
                                   None \<Rightarrow> ''tokenization_hint'' | Some p \<Rightarrow> p],
                        normalized = (case hint_normalized node of
                                        None \<Rightarrow> None | Some n \<Rightarrow> n)\<rparr>]))"
proof (intro conjI impI)
  assume "\<forall>j. i \<le> j \<and> j < length tokens \<longrightarrow> end' (tokens ! j) \<noteq> hint_end node"
  then have "\<forall>t\<in>set (drop i tokens). end' t \<noteq> hint_end node"
    by (auto simp: in_set_conv_nth)
  then have "scan_end_token (drop i tokens) (hint_end node) i None = None"
    by (rule scan_no_match)
  with assms show "apply_tokenization_hint self tokenization_hints tokens i cs = cs"
    by (simp add: apply_tokenization_hint_def)
next
  assume a: "sorted_wrt (\<lambda>a b. start a \<le> start b) tokens \<and>
          (\<forall>t\<in>set tokens. start t \<le> end' t) \<and>
          i \<le> j \<and> j < length tokens \<and> 0 < j \<and> end' (tokens ! j) = hint_end node \<and>
          (custom_abbreviations self = [] \<or> cs = [] \<or>
           start (tokens ! i) < start (last cs) \<or> end' (last cs) \<le> start (tokens ! i))"
  let ?ts = "drop i tokens"
  have s: "sorted_wrt (\<lambda>a b. start a \<le> start b) ?ts"
    using a by (simp add: sorted_wrt_drop)
  have w: "\<forall>t\<in>set ?ts. start t \<le> end' t"
    using a by (meson in_set_dropD)
  have m: "j - i < length ?ts" "end' (?ts ! (j - i)) = hint_end node"
    using a by auto
  from scan_finds_match [OF s w m, of i None]
  obtain k where k: "scan_end_token ?ts (hint_end node) i None = Some k" "j \<le> k"
    using a by auto
  from scan_acc_or_index [OF k(1)]
  have k2: "i \<le> k" "k < length tokens" "end' (tokens ! k) = hint_end node"
    using assms(1) by auto
  have k0: "k \<noteq> 0" using a k(2) by simp
  have "apply_tokenization_hint self tokenization_hints tokens i cs =
          cs @ [hint_span node (slice tokens (int i) (int k + 1))]"
    using assms(2) k(1) k0 a hint_span_slice [OF k2(1,2), of node]
    by (auto simp: apply_tokenization_hint_def Let_def)
  with k(2) k2 hint_span_slice [OF k2(1,2), of node]
  show "\<exists>k. j \<le> k \<and> k < length tokens \<and> end' (tokens ! k) = hint_end node \<and>
               apply_tokenization_hint self tokenization_hints tokens i cs =
                 cs @ [\<lparr>start = start (tokens ! i), end' = hint_end node,
                        spans = drop i (take (k + 1) tokens),
                        type' = [case hint_pattern_type node of
                                   None \<Rightarrow> ''tokenization_hint'' | Some p \<Rightarrow> p],
                        normalized = (case hint_normalized node of
                                        None \<Rightarrow> None | Some n \<Rightarrow> n)\<rparr>]"
    by auto
qed

lemmas eval_defs = default_tagger_def Token_def sweep_def sweep_step_def
  try_to_add_custom_abbreviation_def custom_abbreviation_span_def apply_tokenization_hint_def
  hyphenation_transition_def finish_hyphenation_def normalize_word_with_hyphens_def
  hint_span_def EnvelopingSpan_def slice_def discard_def Let_def

text \<open>
  Witness for C5: the hint from 2 to 4 over the tokens \<open>x\<close> and \<open>:)\<close> queues the candidate
  over the second token, and a hint from 2 to 3, which no token boundary meets, queues
  nothing.
\<close>

theorem tokenization_hint_candidate_witness:
  "apply_tokenization_hint (default_tagger [])
     [2 \<mapsto> \<lparr>hint_end = 4, hint_pattern_type = Some ''emoticon'', hint_normalized = Some None\<rparr>]
     [Token 0 1 ''x'', Token 2 4 '':)''] 1 [] =
   [\<lparr>start = 2, end' = 4, spans = [Token 2 4 '':)''], type' = [''emoticon''],
     normalized = None\<rparr>] \<and>
   apply_tokenization_hint (default_tagger [])
     [2 \<mapsto> \<lparr>hint_end = 3, hint_pattern_type = Some ''emoticon'', hint_normalized = Some None\<rparr>]
     [Token 0 1 ''x'', Token 2 4 '':)''] 1 [] = []"
proof -
  let ?toks = "[Token 0 1 ''x'', Token 2 4 '':)'']"
  let ?node = "\<lparr>hint_end = 4, hint_pattern_type = Some ''emoticon'', hint_normalized = Some None\<rparr>"
  let ?node3 = "\<lparr>hint_end = 3, hint_pattern_type = Some ''emoticon'', hint_normalized = Some None\<rparr>"
  have len: "1 < length ?toks" by simp
  have h: "[2 \<mapsto> ?node] (start (?toks ! 1)) = Some ?node" by (simp add: Token_def)
  have h3: "[2 \<mapsto> ?node3] (start (?toks ! 1)) = Some ?node3" by (simp add: Token_def)
  from tokenization_hint_candidate [where i = 1 and tokens = ?toks and node = ?node
      and tokenization_hints = "[2 \<mapsto> ?node]" and self = "default_tagger []" and cs = "[]"
      and j = 1, OF len h]
  obtain k where "1 \<le> k" "k < length ?toks"
    and r: "apply_tokenization_hint (default_tagger []) [2 \<mapsto> ?node] ?toks 1 [] =
       [] @ [\<lparr>start = start (?toks ! 1), end' = hint_end ?node,
              spans = drop 1 (take (k + 1) ?toks),
              type' = [case hint_pattern_type ?node of
                         None \<Rightarrow> ''tokenization_hint'' | Some p \<Rightarrow> p],
              normalized = (case hint_normalized ?node of None \<Rightarrow> None | Some n \<Rightarrow> n)\<rparr>]"
    by (auto simp: Token_def default_tagger_def)
  then have "k = 1" by simp
  with r have a: "apply_tokenization_hint (default_tagger [])
     [2 \<mapsto> ?node] ?toks 1 [] =
   [\<lparr>start = 2, end' = 4, spans = [Token 2 4 '':)''], type' = [''emoticon''],
     normalized = None\<rparr>]" by (simp add: Token_def)
  have "\<forall>j. 1 \<le> j \<and> j < length ?toks \<longrightarrow> end' (?toks ! j) \<noteq> hint_end ?node3"
    by (auto simp: Token_def less_Suc_eq)
  with tokenization_hint_candidate [where i = 1 and tokens = ?toks and node = ?node3
      and tokenization_hints = "[2 \<mapsto> ?node3]" and self = "default_tagger []" and cs = "[]"
      and j = 1, OF len h3]
  have b: "apply_tokenization_hint (default_tagger []) [2 \<mapsto> ?node3] ?toks 1 [] = []"
    by blast
  from a b show ?thesis by blast
qed

text \<open>
  Counterexample to C5 as stated. A hint from 0 to 2 meets the end of the first token, yet
  the sweep queues nothing: the index 0 found by the scan is tested for truth. And with
  the custom abbreviation \<open>Dr\<close> configured, the hint from 2 to 4 meets the end of the
  token \<open>Dr\<close>, yet only the abbreviation's own candidate is queued: the hint's candidate
  starts inside it and is dropped by the guard of lines 298 to 305.
\<close>

theorem tokenization_hint_counterexample:
  "end' ([Token 0 2 '':)'', Token 3 4 ''x''] ! 0) = 2 \<and>
   sweep (default_tagger []) '':) x''
     [0 \<mapsto> \<lparr>hint_end = 2, hint_pattern_type = Some ''emoticon'', hint_normalized = Some None\<rparr>]
     [Token 0 2 '':)'', Token 3 4 ''x''] =
   Inr \<lparr>hyphenation_status = None, hyphenation_start = 1, last_end = Some 4,
        compound_tokens_lists = []\<rparr> \<and>
   end' ([Token 0 1 ''x'', Token 2 4 ''Dr'', Token 4 5 ''.'', Token 6 7 ''y''] ! 1) = 4 \<and>
   sweep (default_tagger [''Dr'']) ''x Dr. y''
     [2 \<mapsto> \<lparr>hint_end = 4, hint_pattern_type = Some ''abbreviation'', hint_normalized = Some None\<rparr>]
     [Token 0 1 ''x'', Token 2 4 ''Dr'', Token 4 5 ''.'', Token 6 7 ''y''] =
   Inr \<lparr>hyphenation_status = None, hyphenation_start = 3, last_end = Some 7,
        compound_tokens_lists =
          [\<lparr>start = 2, end' = 5, spans = [Token 2 4 ''Dr'', Token 4 5 ''.''],
            type' = [''non_ending_abbreviation''], normalized = Some ''Dr.''\<rparr>]\<rparr>"
  by (simp add: eval_defs upt_rec)

section \<open>The covered-spans query\<close>




section \<open>The hyphenation machine\<close>

text \<open>
  Claim C7, as amended. From the status \<^verbatim>\<open>'-'\<close> the machine moves to \<^verbatim>\<open>'second'\<close> exactly
  when the token starts where the previous token, the hyphen, ended; the text of the
  token is not looked at, so a second hyphen moves it to \<^verbatim>\<open>'second'\<close> as well.
\<close>

theorem hyphen_to_second:
  "(fst (hyphenation_transition (Some Hyphen) hstart prev_end token_span i) = Some Second)
     = (prev_end = Some (start token_span))"
  by (simp add: hyphenation_transition_def)

text \<open>
  Witness for C7: after a hyphen ending at 2, a token starting at 2 gives \<^verbatim>\<open>'second'\<close>
  although it is a hyphen, and a token starting at 3 does not.
\<close>

theorem hyphen_to_second_witness:
  "fst (hyphenation_transition (Some Hyphen) 0 (Some 2) (Token 2 3 ''-'') 2) = Some Second \<and>
   fst (hyphenation_transition (Some Hyphen) 0 (Some 2) (Token 3 4 ''b'') 2) \<noteq> Some Second"
  using hyphen_to_second [of 0 "Some 2" "Token 2 3 ''-''" 2]
    hyphen_to_second [of 0 "Some 2" "Token 3 4 ''b''" 2]
  by (simp add: Token_def)

text \<open>
  Counterexample to C7 as stated: on the adjacent tokens \<open>a\<close>, \<open>-\<close>, \<open>-\<close> the sweep is in
  the status \<^verbatim>\<open>'-'\<close> after the second token and in \<^verbatim>\<open>'second'\<close> after the third.
\<close>

theorem hyphen_to_second_counterexample:
  "sweep (default_tagger []) ''a-'' Map.empty [Token 0 1 ''a'', Token 1 2 ''-''] =
     Inr \<lparr>hyphenation_status = Some Hyphen, hyphenation_start = 0, last_end = Some 2,
          compound_tokens_lists = []\<rparr> \<and>
   sweep (default_tagger []) ''a--'' Map.empty
       [Token 0 1 ''a'', Token 1 2 ''-'', Token 2 3 ''-''] =
     Inr \<lparr>hyphenation_status = Some Second, hyphenation_start = 0, last_end = Some 3,
          compound_tokens_lists = []\<rparr>"
  by (simp add: eval_defs upt_rec)

section \<open>Custom abbreviations\<close>

lemma slice_nonempty: "i \<le> k \<Longrightarrow> k < length xs \<Longrightarrow> drop i (take (k + 1) xs) \<noteq> []"
  by simp

lemma slice_one: "i < length xs \<Longrightarrow> slice xs (int i) (int i + 1) = [xs ! i]"
  by (simp add: slice_nat1 take_Suc_conv_app_nth)

lemma slice_two:
  "i + 1 < length xs \<Longrightarrow> slice xs (int i) (int i + 2) = [xs ! i, xs ! (i + 1)]"
  by (simp add: slice_nat2 take_Suc_conv_app_nth numeral_2_eq_2)

text \<open>
  Claim C6 against the code. When the abbreviation is the last token but one, the next
  token is not read (\<^verbatim>\<open>token_id+1 < len(tokens)-1\<close> fails) and the candidate envelops the
  abbreviation alone, whatever the last token is. When at least two tokens follow the
  abbreviation and the next one is \<open>.\<close>, the candidate envelops both.
\<close>

theorem custom_abbreviation_span_tokens:
  "(token_id + 2 = length tokens \<longrightarrow>
      custom_abbreviation_span tokens token_id =
        \<lparr>start = start (tokens ! token_id), end' = end' (tokens ! token_id),
         spans = [tokens ! token_id], type' = [''non_ending_abbreviation''],
         normalized = None\<rparr>) \<and>
   (token_id + 2 < length tokens \<and> text' (tokens ! (token_id + 1)) = ''.'' \<longrightarrow>
      custom_abbreviation_span tokens token_id =
        \<lparr>start = start (tokens ! token_id), end' = end' (tokens ! (token_id + 1)),
         spans = [tokens ! token_id, tokens ! (token_id + 1)],
         type' = [''non_ending_abbreviation''],
         normalized = Some (text' (tokens ! token_id) @ ''.'')\<rparr>)"
proof (intro conjI impI)
  assume a: "token_id + 2 = length tokens"
  then have "\<not> int token_id + 1 < int (length tokens) - 1" by simp
  moreover have "slice tokens (int token_id) (int token_id + 1) = [tokens ! token_id]"
    using a by (simp add: slice_one)
  ultimately show "custom_abbreviation_span tokens token_id =
        \<lparr>start = start (tokens ! token_id), end' = end' (tokens ! token_id),
         spans = [tokens ! token_id], type' = [''non_ending_abbreviation''],
         normalized = None\<rparr>"
    by (simp add: custom_abbreviation_span_def EnvelopingSpan_def)
next
  assume a: "token_id + 2 < length tokens \<and> text' (tokens ! (token_id + 1)) = ''.''"
  then have "int token_id + 1 < int (length tokens) - 1" by simp
  moreover have "slice tokens (int token_id) (int token_id + 2) =
      [tokens ! token_id, tokens ! (token_id + 1)]"
    using a by (simp add: slice_two)
  ultimately show "custom_abbreviation_span tokens token_id =
        \<lparr>start = start (tokens ! token_id), end' = end' (tokens ! (token_id + 1)),
         spans = [tokens ! token_id, tokens ! (token_id + 1)],
         type' = [''non_ending_abbreviation''],
         normalized = Some (text' (tokens ! token_id) @ ''.'')\<rparr>"
    using a by (simp add: custom_abbreviation_span_def EnvelopingSpan_def)
qed

text \<open>
  Witness for C6, the failing input: for the two tokens \<open>Dr\<close> and \<open>.\<close> the candidate
  envelops \<open>Dr\<close> only; with one more token after them it envelops \<open>Dr\<close> and \<open>.\<close>.
\<close>

theorem custom_abbreviation_span_tokens_witness:
  "text' ([Token 0 2 ''Dr'', Token 2 3 ''.''] ! 1) = ''.'' \<and>
   custom_abbreviation_span [Token 0 2 ''Dr'', Token 2 3 ''.''] 0 =
     \<lparr>start = 0, end' = 2, spans = [Token 0 2 ''Dr''],
      type' = [''non_ending_abbreviation''], normalized = None\<rparr> \<and>
   custom_abbreviation_span [Token 0 2 ''Dr'', Token 2 3 ''.'', Token 4 5 ''x''] 0 =
     \<lparr>start = 0, end' = 3, spans = [Token 0 2 ''Dr'', Token 2 3 ''.''],
      type' = [''non_ending_abbreviation''], normalized = Some ''Dr.''\<rparr>"
  using custom_abbreviation_span_tokens [of 0 "[Token 0 2 ''Dr'', Token 2 3 ''.'']"]
    custom_abbreviation_span_tokens [of 0 "[Token 0 2 ''Dr'', Token 2 3 ''.'', Token 4 5 ''x'']"]
  by (simp add: Token_def)

text \<open>
  The same two inputs run through the whole sweep with the abbreviation \<open>Dr\<close> configured.
\<close>

lemma custom_abbreviation_sweep_runs:
  "sweep (default_tagger [''Dr'']) ''Dr.'' Map.empty [Token 0 2 ''Dr'', Token 2 3 ''.''] =
     Inr \<lparr>hyphenation_status = None, hyphenation_start = 1, last_end = Some 3,
          compound_tokens_lists =
            [\<lparr>start = 0, end' = 2, spans = [Token 0 2 ''Dr''],
              type' = [''non_ending_abbreviation''], normalized = None\<rparr>]\<rparr> \<and>
   sweep (default_tagger [''Dr'']) ''Dr. x'' Map.empty
       [Token 0 2 ''Dr'', Token 2 3 ''.'', Token 4 5 ''x''] =
     Inr \<lparr>hyphenation_status = None, hyphenation_start = 2, last_end = Some 5,
          compound_tokens_lists =
            [\<lparr>start = 0, end' = 3, spans = [Token 0 2 ''Dr'', Token 2 3 ''.''],
              type' = [''non_ending_abbreviation''], normalized = Some ''Dr.''\<rparr>]\<rparr>"
  by (simp add: eval_defs upt_rec)

section \<open>Sorted insertion\<close>

lemma insert_span_loop_no_place:
  "\<forall>x\<in>set xs. start x < end' s \<Longrightarrow>
   fst (insert_span_loop s discard_duplicate d xs) = xs \<and>
   \<not> fst (snd (insert_span_loop s discard_duplicate d xs))"
proof (induction xs arbitrary: d)
  case Nil
  then show ?case by simp
next
  case (Cons a xs)
  let ?d = "if start s = start a \<and> end' s = end' a then True else d"
  from Cons.prems have a: "\<not> end' s \<le> start a" and rest: "\<forall>x\<in>set xs. start x < end' s"
    by auto
  from Cons.IH [OF rest, of ?d] a show ?case
    by (simp add: Let_def case_prod_beta)
qed

text \<open>
  Claim C3 against the code. The loop inserts before the first listed span that starts
  at or after the end of the new span. When every listed span starts before that end,
  the new span is appended, wherever it starts.
\<close>

theorem insert_span_appends:
  assumes "\<forall>x\<in>set xs. start x < end' s"
  shows "insert_span s xs False = xs @ [s]"
  using insert_span_loop_no_place [OF assms, of False False]
  by (auto simp: insert_span_def split: prod.splits)

text \<open>
  Witness for C3, the failing input: the span from 2 to 8 is appended after the span
  from 5 to 15, and the list is no longer in ascending order.
\<close>

theorem insert_span_appends_witness:
  "sorted_wrt span_le [\<lparr>start = 5, end' = 15\<rparr>] \<and>
   insert_span \<lparr>start = 2, end' = 8\<rparr> [\<lparr>start = 5, end' = 15\<rparr>] False =
     [\<lparr>start = 5, end' = 15\<rparr>, \<lparr>start = 2, end' = 8\<rparr>] \<and>
   \<not> sorted_wrt span_le [\<lparr>start = 5, end' = 15\<rparr>, \<lparr>start = 2, end' = 8\<rparr>]"
  using insert_span_appends [of "[\<lparr>start = 5, end' = 15\<rparr>]" "\<lparr>start = 2, end' = 8\<rparr>"]
  by (simp add: span_le_def)

text \<open>
  What the insertion does keep. Without \<^verbatim>\<open>discard_duplicate\<close> the new span goes before the
  first listed span that starts at or after its end. The result is in ascending order
  when no interval is inverted and the new span overlaps no listed span, an exact
  duplicate apart; and with \<^verbatim>\<open>discard_duplicate\<close> a span whose interval is already listed
  leaves the list as it is.
\<close>

lemma insert_span_loop_keep:
  "fst (insert_span_loop s False d xs) =
     (if \<exists>x\<in>set xs. end' s \<le> start x
      then takeWhile (\<lambda>x. \<not> end' s \<le> start x) xs @ s #
           dropWhile (\<lambda>x. \<not> end' s \<le> start x) xs
      else xs) \<and>
   fst (snd (insert_span_loop s False d xs)) = (\<exists>x\<in>set xs. end' s \<le> start x)"
proof (induction xs arbitrary: d)
  case Nil
  then show ?case by simp
next
  case (Cons a xs)
  let ?d = "if start s = start a \<and> end' s = end' a then True else d"
  from Cons.IH [of ?d] show ?case
    by (simp add: Let_def case_prod_beta)
qed

lemma insert_span_keep:
  "insert_span s xs False =
     takeWhile (\<lambda>x. \<not> end' s \<le> start x) xs @ s #
     dropWhile (\<lambda>x. \<not> end' s \<le> start x) xs"
proof (cases "\<exists>x\<in>set xs. end' s \<le> start x")
  case True
  with insert_span_loop_keep [of s False xs] show ?thesis
    by (simp add: insert_span_def case_prod_beta)
next
  case False
  then have tw: "takeWhile (\<lambda>x. \<not> end' s \<le> start x) xs = xs"
    "dropWhile (\<lambda>x. \<not> end' s \<le> start x) xs = []"
    by auto
  have eq: "insert_span s xs False = xs @ [s]"
    using False insert_span_loop_keep [of s False xs]
    by (simp add: insert_span_def case_prod_beta)
  show ?thesis by (simp only: eq tw)
qed

lemma span_le_trans: "span_le a b \<Longrightarrow> span_le b c \<Longrightarrow> span_le a c"
  by (auto simp: span_le_def)

lemma insert_span_sorted:
  assumes sorted: "sorted_wrt span_le xs"
    and wf: "\<forall>x\<in>set xs. well_formed x" "well_formed s"
    and apart: "\<forall>x\<in>set xs. end' x \<le> start s \<or> end' s \<le> start x \<or> same_interval s x"
  shows "sorted_wrt span_le (insert_span s xs False) \<and> s \<in> set (insert_span s xs False)"
proof -
  let ?P = "\<lambda>x. \<not> end' s \<le> start x"
  let ?before = "takeWhile ?P xs" and ?after = "dropWhile ?P xs"
  have split: "xs = ?before @ ?after" by simp
  have sb: "sorted_wrt span_le ?before" and sa: "sorted_wrt span_le ?after"
    and cross: "\<forall>x\<in>set ?before. \<forall>y\<in>set ?after. span_le x y"
    using sorted sorted_wrt_append [of span_le ?before ?after] by simp_all
  have before: "span_le x s" if "x \<in> set ?before" for x
  proof -
    from that have "?P x" "x \<in> set xs" by (auto dest: set_takeWhileD)
    with wf apart show ?thesis
      by (fastforce simp: span_le_def well_formed_def same_interval_def)
  qed
  have after: "span_le s y" if "y \<in> set ?after" for y
  proof -
    from that have ne: "?after \<noteq> []" by (metis empty_iff empty_set)
    then have h: "end' s \<le> start (hd ?after)" using hd_dropWhile [of ?P xs] by simp
    have "y = hd ?after \<or> span_le (hd ?after) y"
      using that sa ne by (cases ?after) auto
    then have "start (hd ?after) \<le> start y" by (auto simp: span_le_def)
    moreover have "well_formed y" using that wf(1) by (auto dest: set_dropWhileD)
    ultimately show ?thesis using h wf(2) by (auto simp: span_le_def well_formed_def)
  qed
  have "sorted_wrt span_le (?before @ s # ?after)"
    using sb sa cross before after by (auto simp: sorted_wrt_append)
  then show ?thesis by (simp add: insert_span_keep)
qed

lemma insert_span_loop_duplicate:
  "d \<or> (\<exists>x\<in>set xs. same_interval s x) \<Longrightarrow> sorted_wrt span_le xs \<Longrightarrow>
   \<forall>x\<in>set xs. well_formed x \<Longrightarrow>
   insert_span_loop s True d xs = (xs, False, True)"
proof (induction xs arbitrary: d)
  case Nil
  then show ?case by simp
next
  case (Cons a xs)
  let ?d = "if start s = start a \<and> end' s = end' a then True else d"
  have rest: "sorted_wrt span_le xs" "\<forall>x\<in>set xs. well_formed x"
    using Cons.prems by simp_all
  show ?case
  proof (cases ?d)
    case True
    then have "insert_span_loop s True ?d xs = (xs, False, True)"
      using Cons.IH [of ?d] rest by simp
    with True show ?thesis by (simp add: Let_def)
  next
    case False
    then have nd: "\<not> d" "\<not> same_interval s a" by (auto simp: same_interval_def split: if_splits)
    with Cons.prems(1) obtain x where x: "x \<in> set xs" "same_interval s x" by auto
    with Cons.prems(2,3) have "span_le a x" "well_formed a" "well_formed x" by auto
    with x(2) nd(2) have np: "\<not> end' s \<le> start a"
      by (auto simp: span_le_def well_formed_def same_interval_def)
    have "insert_span_loop s True False xs = (xs, False, True)"
      using Cons.IH [of False] rest x by blast
    with np nd show ?thesis by (auto simp: Let_def same_interval_def)
  qed
qed

lemma insert_span_discards_duplicate:
  assumes "\<exists>x\<in>set xs. same_interval s x" "sorted_wrt span_le xs" "\<forall>x\<in>set xs. well_formed x"
  shows "insert_span s xs True = xs"
  using insert_span_loop_duplicate [of False xs s] assms by (simp add: insert_span_def)

section \<open>The gaps of the test\<close>

text \<open>
  Claim C4. On the text of the test (36 code points) and its two layers the tagger
  yields exactly the gaps from 0 to 4, 8 to 9, 18 to 24 and 28 to 35, each ending no later
  than the next one starts.
\<close>

theorem gap_tagger_test_gaps:
  "length test_text = 36 \<and>
   GapTagger test_text [layer_1, layer_2] =
     [\<lparr>start = 0, end' = 4\<rparr>, \<lparr>start = 8, end' = 9\<rparr>,
      \<lparr>start = 18, end' = 24\<rparr>, \<lparr>start = 28, end' = 35\<rparr>] \<and>
   sorted_wrt (\<lambda>a b. end' a \<le> start b) (GapTagger test_text [layer_1, layer_2])"
  by (simp add: GapTagger_def merge_layers_def test_text_def layer_1_def layer_2_def
      span_le_def)

text \<open>
  Witness for C4: the same run, the gaps read as pairs of start and end.
\<close>

theorem gap_tagger_test_gaps_witness:
  "map (\<lambda>gap. (start gap, end' gap)) (GapTagger test_text [layer_1, layer_2]) =
     [(0, 4), (8, 9), (18, 24), (28, 35)]"
  using gap_tagger_test_gaps by simp

section \<open>Idempotence of conflict resolution\<close>

lemma select_superset:
  "set survivors \<subseteq> set (select_survivors key keep_equal survivors cs)"
proof (induction cs arbitrary: survivors)
  case Nil
  then show ?case by simp
next
  case (Cons c cs)
  have "set survivors \<subseteq> set (survivors @ [c])" by auto
  with Cons.IH [of survivors] Cons.IH [of "survivors @ [c]"] show ?case
    by (auto split: if_splits)
qed

lemma select_filter:
  "select_survivors key keep_equal survivors
     (filter (\<lambda>s. s \<in> set (select_survivors key keep_equal survivors cs)) cs) =
   select_survivors key keep_equal survivors cs"
proof (induction cs arbitrary: survivors)
  case Nil
  then show ?case by simp
next
  case (Cons c cs)
  let ?drop = "list_ex (\<lambda>k. overlap (snd k) (snd c) \<and>
                       (\<not> keep_equal \<or> key (snd k) < key (snd c))) survivors"
  show ?case
  proof (cases ?drop)
    case True
    then show ?thesis using Cons.IH [of survivors] by simp
  next
    case False
    have "c \<in> set (select_survivors key keep_equal (survivors @ [c]) cs)"
      using select_superset [of "survivors @ [c]" key keep_equal cs] by auto
    then show ?thesis using False Cons.IH [of "survivors @ [c]"] by simp
  qed
qed

lemma resolve_numbered_idem:
  "resolve_numbered key keep_equal (resolve_numbered key keep_equal numbered) =
   resolve_numbered key keep_equal numbered"
proof -
  let ?S = "sort_key (\<lambda>p. key (snd p)) numbered"
  let ?K = "select_survivors key keep_equal [] ?S"
  let ?R = "filter (\<lambda>p. p \<in> set ?K) numbered"
  have "sort_key (\<lambda>p. key (snd p)) ?R = filter (\<lambda>p. p \<in> set ?K) ?S"
    by (simp add: filter_sort)
  then have "select_survivors key keep_equal [] (sort_key (\<lambda>p. key (snd p)) ?R) = ?K"
    using select_filter [of key keep_equal "[]" ?S] by simp
  then show ?thesis
    by (simp add: resolve_numbered_def Let_def)
qed

text \<open>Two numberings of the same spans.\<close>

lemma insort_aligned:
  assumes "list_all2 r xs ys" "r a b" "\<And>x y. r x y \<Longrightarrow> k x = k' y"
  shows "list_all2 r (insort_key k a xs) (insort_key k' b ys)"
  using assms(1)
proof (induction rule: list_all2_induct)
  case Nil
  then show ?case using assms(2) by simp
next
  case (Cons x xs y ys)
  then show ?case using assms(2,3) by (auto dest: assms(3))
qed

lemma sort_aligned:
  assumes "list_all2 r xs ys" "\<And>x y. r x y \<Longrightarrow> k x = k' y"
  shows "list_all2 r (sort_key k xs) (sort_key k' ys)"
  using assms(1)
proof (induction rule: list_all2_induct)
  case Nil
  then show ?case by simp
next
  case (Cons x xs y ys)
  then show ?case using insort_aligned [of r _ _ x y k k'] assms(2) by simp
qed

lemma select_aligned:
  assumes "\<And>x y. r x y \<Longrightarrow> snd x = snd y"
  shows "list_all2 r cs ds \<Longrightarrow> list_all2 r ks ls \<Longrightarrow>
         list_all2 r (select_survivors key keep_equal ks cs)
                     (select_survivors key keep_equal ls ds)"
proof (induction cs arbitrary: ds ks ls)
  case Nil
  then show ?case by simp
next
  case (Cons c cs)
  from Cons.prems(1) obtain d ds' where ds: "ds = d # ds'" "r c d" "list_all2 r cs ds'"
    by (auto simp: list_all2_Cons1)
  have eq: "snd c = snd d" using ds(2) assms by simp
  have ex: "list_ex (\<lambda>k. overlap (snd k) (snd c) \<and>
                       (\<not> keep_equal \<or> key (snd k) < key (snd c))) ks =
            list_ex (\<lambda>k. overlap (snd k) (snd d) \<and>
                       (\<not> keep_equal \<or> key (snd k) < key (snd d))) ls"
    using Cons.prems(2) eq
  proof (induction rule: list_all2_induct)
    case Nil
    then show ?case by simp
  next
    case (Cons x xs y ys)
    then show ?case using assms [of x y] by simp
  qed
  have app: "list_all2 r (ks @ [c]) (ls @ [d])"
    using Cons.prems(2) ds(2) by (simp add: list_all2_appendI)
  show ?case
    using Cons.IH [OF ds(3) Cons.prems(2)] Cons.IH [OF ds(3) app] ex ds(1) by simp
qed

lemma filter_aligned:
  "list_all2 r xs ys \<Longrightarrow> (\<And>x y. r x y \<Longrightarrow> P x = Q y) \<Longrightarrow>
   list_all2 r (filter P xs) (filter Q ys)"
  by (induction rule: list_all2_induct) auto

lemma map_aligned:
  "list_all2 r xs ys \<Longrightarrow> (\<And>x y. r x y \<Longrightarrow> f x = g y) \<Longrightarrow> map f xs = map g ys"
  by (induction rule: list_all2_induct) auto

lemma aligned_member:
  assumes "list_all2 r ks ls" "x \<in> set ks"
  shows "\<exists>y. y \<in> set ls \<and> r x y"
  using assms by (induction rule: list_all2_induct) auto

lemma aligned_member':
  assumes "list_all2 r ks ls" "y \<in> set ls"
  shows "\<exists>x. x \<in> set ks \<and> r x y"
  using assms by (induction rule: list_all2_induct) auto

lemma resolve_numbered_relabel:
  assumes eq: "map snd A = map snd B"
    and dA: "distinct (map fst A)" and dB: "distinct (map fst B)"
  shows "map snd (resolve_numbered key keep_equal A) =
         map snd (resolve_numbered key keep_equal B)"
proof -
  define r where "r x y = ((x, y) \<in> set (zip A B))" for x y
  have len: "length A = length B" using eq by (rule map_eq_imp_length_eq)
  have distA: "distinct A" using dA by (rule distinct_map [THEN iffD1, THEN conjunct1])
  have distB: "distinct B" using dB by (rule distinct_map [THEN iffD1, THEN conjunct1])
  have pos: "r x y \<Longrightarrow> \<exists>i < length A. A ! i = x \<and> B ! i = y" for x y
    unfolding r_def using len by (auto simp: in_set_zip)
  have r_snd: "snd x = snd y" if "r x y" for x y
  proof -
    from pos [OF that] obtain i where i: "i < length A" "A ! i = x" "B ! i = y" by blast
    have "map snd A ! i = map snd B ! i" using eq by simp
    with i len show ?thesis by simp
  qed
  have r_key: "key (snd x) = key (snd y)" if "r x y" for x y
    using r_snd [OF that] by simp
  have r_right: "y = y'" if "r x y" "r x y'" for x y y'
  proof -
    from pos [OF that(1)] obtain i where i: "i < length A" "A ! i = x" "B ! i = y" by blast
    from pos [OF that(2)] obtain j where j: "j < length A" "A ! j = x" "B ! j = y'" by blast
    from i j have "A ! i = A ! j" by simp
    with nth_eq_iff_index_eq [OF distA i(1) j(1)] have "i = j" by blast
    with i j show ?thesis by simp
  qed
  have r_left: "x = x'" if "r x y" "r x' y" for x x' y
  proof -
    from pos [OF that(1)] obtain i where i: "i < length A" "A ! i = x" "B ! i = y" by blast
    from pos [OF that(2)] obtain j where j: "j < length A" "A ! j = x'" "B ! j = y" by blast
    from i j have "B ! i = B ! j" by simp
    moreover have "i < length B" "j < length B" using i j len by simp_all
    ultimately have "i = j" using nth_eq_iff_index_eq [OF distB] by blast
    with i j show ?thesis by simp
  qed
  have all: "list_all2 r A B"
    unfolding r_def using len by (auto simp: list_all2_conv_all_nth in_set_zip)
  let ?KA = "select_survivors key keep_equal [] (sort_key (\<lambda>p. key (snd p)) A)"
  let ?KB = "select_survivors key keep_equal [] (sort_key (\<lambda>p. key (snd p)) B)"
  have sorted: "list_all2 r (sort_key (\<lambda>p. key (snd p)) A) (sort_key (\<lambda>p. key (snd p)) B)"
    using all r_key by (rule sort_aligned)
  have K: "list_all2 r ?KA ?KB"
    using r_snd sorted by (rule select_aligned) simp_all
  have mem: "(x \<in> set ?KA) = (y \<in> set ?KB)" if "r x y" for x y
  proof
    assume "x \<in> set ?KA"
    from aligned_member [OF K this] obtain y' where "y' \<in> set ?KB" "r x y'" by blast
    with r_right [OF that] show "y \<in> set ?KB" by blast
  next
    assume "y \<in> set ?KB"
    from aligned_member' [OF K this] obtain x' where "x' \<in> set ?KA" "r x' y" by blast
    with r_left [OF that] show "x \<in> set ?KA" by blast
  qed
  have "list_all2 r (filter (\<lambda>p. p \<in> set ?KA) A) (filter (\<lambda>p. p \<in> set ?KB) B)"
    using all mem by (rule filter_aligned)
  then show ?thesis
    unfolding resolve_numbered_def Let_def using r_snd by (rule map_aligned)
qed

text \<open>
  Claim C2. For every layer, strategy, priority attribute and \<^verbatim>\<open>keep_equal\<close> flag,
  resolving the conflicts of an already resolved layer changes nothing.
\<close>

theorem resolve_conflicts_idempotent:
  "resolve_conflicts strategy priority_attribute keep_equal
     (resolve_conflicts strategy priority_attribute keep_equal layer_list) =
   resolve_conflicts strategy priority_attribute keep_equal layer_list"
proof -
  let ?key = "conflict_key strategy priority_attribute"
  let ?T = "enumerate 0 layer_list"
  let ?F = "resolve_numbered ?key keep_equal ?T"
  let ?R = "map snd ?F"
  have "distinct (map fst ?T)" by simp
  then have dF: "distinct (map fst ?F)"
    unfolding resolve_numbered_def Let_def by (rule distinct_map_filter)
  have "map snd (resolve_numbered ?key keep_equal (enumerate 0 ?R)) =
        map snd (resolve_numbered ?key keep_equal ?F)"
    by (rule resolve_numbered_relabel) (simp_all add: dF)
  then show ?thesis
    by (simp add: resolve_conflicts_def resolve_numbered_idem)
qed

text \<open>
  Witness for C2: of three spans in a chain of overlaps the longest survives under MAX,
  and resolving once more returns the same layer.
\<close>

theorem resolve_conflicts_idempotent_witness:
  "resolve_conflicts MAX' None False
     [\<lparr>start = 0, end' = 3\<rparr>, \<lparr>start = 2, end' = 9\<rparr>, \<lparr>start = 8, end' = 10\<rparr>] =
     [\<lparr>start = 2, end' = 9\<rparr>] \<and>
   resolve_conflicts MAX' None False
     (resolve_conflicts MAX' None False
        [\<lparr>start = 0, end' = 3\<rparr>, \<lparr>start = 2, end' = 9\<rparr>, \<lparr>start = 8, end' = 10\<rparr>]) =
     [\<lparr>start = 2, end' = 9\<rparr>]"
proof -
  have "resolve_conflicts MAX' None False
     [\<lparr>start = 0, end' = 3\<rparr>, \<lparr>start = 2, end' = 9\<rparr>, \<lparr>start = 8, end' = 10\<rparr>] =
     [\<lparr>start = 2, end' = 9\<rparr>]"
    by (simp add: resolve_conflicts_def resolve_numbered_def conflict_key_def overlap_def
        enumerate_eq_zip upt_rec Let_def)
  with resolve_conflicts_idempotent [of MAX' None False
     "[\<lparr>start = 0, end' = 3\<rparr>, \<lparr>start = 2, end' = 9\<rparr>, \<lparr>start = 8, end' = 10\<rparr>]"]
  show ?thesis by simp
qed

section \<open>The loop over the layers in \<^verbatim>\<open>excerpt\<close>\<close>

lemma excerpt_layers_fails:
  assumes "l \<in> set ls" "kept keep l"
    and "\<And>st. \<exists>e. excerpt_layer s e' t l st = Inl e"
  shows "\<exists>e. excerpt_layers s e' keep t ls st = Inl e"
  using assms(1)
proof (induction ls arbitrary: st)
  case Nil
  then show ?case by simp
next
  case (Cons x xs)
  show ?case
  proof (cases "x = l")
    case True
    with assms(2) assms(3) [of st] show ?thesis by auto
  next
    case False
    with Cons.prems have "l \<in> set xs" by simp
    from Cons.IH [OF this] show ?thesis
      by (auto split: sum.splits)
  qed
qed

lemma excerpt_layers_append:
  "excerpt_layers s e' keep t (pre @ post) st =
     (case excerpt_layers s e' keep t pre st of
        Inl e \<Rightarrow> Inl e
      | Inr st' \<Rightarrow> excerpt_layers s e' keep t post st')"
  by (induction pre arbitrary: st) (auto split: sum.splits)

lemma excerpt_layers_first_error:
  assumes "excerpt_layers s e' keep t pre st = Inr st'" "kept keep l"
    and "excerpt_layer s e' t l st' = Inl e"
  shows "excerpt_layers s e' keep t (pre @ l # post) st = Inl e"
  using assms by (simp add: excerpt_layers_append)

lemmas excerpt_eval = excerpt_def excerpt_layer_def initial_state_def kept_def truthy_def
  window_def Layer_def Text_def tokens_layer_def sentences_layer_def morph_layer_def
  variants_layer_def copy_attributes_of_sp_def getattr_def slice_def Let_def

section \<open>Ambiguous plain layers\<close>

text \<open>
  Claim C9, as amended. When a layer that \<^verbatim>\<open>excerpt\<close> keeps has no parent, envelops nothing and is
  ambiguous, \<^verbatim>\<open>excerpt\<close> returns an error and no new text; when the layers listed before it
  are processed without error, the error is the \<^verbatim>\<open>NotImplementedError\<close> of line 72.
\<close>

theorem ambiguous_plain_layer_rejected:
  assumes "l \<in> set (list_layers text_obj)" and "kept layers_to_keep l"
    and "\<not> truthy (parent l)" and "\<not> truthy (enveloping l)" and "ambiguous l"
  shows "(\<exists>e. excerpt text_obj start_pos end_pos layers_to_keep trim_overlapping = Inl e) \<and>
         (\<forall>pre post st. list_layers text_obj = pre @ l # post \<and>
            excerpt_layers start_pos end_pos layers_to_keep trim_overlapping pre
              initial_state = Inr st \<longrightarrow>
            excerpt text_obj start_pos end_pos layers_to_keep trim_overlapping =
              Inl (NotImplementedError (''ambiguous layer: '' @ name l)))"
proof -
  have step: "excerpt_layer start_pos end_pos trim_overlapping l st =
      Inl (NotImplementedError (''ambiguous layer: '' @ name l))" for st
    using assms(3-5) by (simp add: excerpt_layer_def)
  then have "\<And>st. \<exists>e. excerpt_layer start_pos end_pos trim_overlapping l st = Inl e"
    by blast
  from excerpt_layers_fails [OF assms(1,2) this]
  obtain e where "excerpt_layers start_pos end_pos layers_to_keep trim_overlapping
      (list_layers text_obj) initial_state = Inl e" by blast
  then have a: "\<exists>e. excerpt text_obj start_pos end_pos layers_to_keep trim_overlapping = Inl e"
    by (simp add: excerpt_def)
  have b: "excerpt text_obj start_pos end_pos layers_to_keep trim_overlapping =
              Inl (NotImplementedError (''ambiguous layer: '' @ name l))"
    if "list_layers text_obj = pre @ l # post"
      "excerpt_layers start_pos end_pos layers_to_keep trim_overlapping pre
         initial_state = Inr st" for pre post st
    using excerpt_layers_first_error [OF that(2) assms(2) step, of post] that(1)
    by (simp add: excerpt_def)
  from a b show ?thesis by blast
qed

text \<open>
  Witness for C9: the document with the tokens and an ambiguous plain layer.
\<close>

theorem ambiguous_plain_layer_rejected_witness:
  "excerpt (Text [tokens_layer, variants_layer]) 0 3 None False =
     Inl (NotImplementedError ''ambiguous layer: variants'')"
proof -
  have 1: "variants_layer \<in> set (list_layers (Text [tokens_layer, variants_layer]))"
    by (simp add: Text_def)
  have 2: "kept None variants_layer" by (simp add: kept_def)
  have 3: "\<not> truthy (parent variants_layer)" "\<not> truthy (enveloping variants_layer)"
    "ambiguous variants_layer"
    by (simp_all add: variants_layer_def truthy_def)
  have 4: "list_layers (Text [tokens_layer, variants_layer]) = [tokens_layer] @ variants_layer # []"
    by (simp add: Text_def)
  have 5: "excerpt_layers 0 3 None False [tokens_layer] initial_state =
     Inr \<lparr>map_spans = [1 \<mapsto> Span 0 3 []], sp = None,
          new_layers = [Layer tokens_layer [Span 0 3 []]]\<rparr>"
    by (simp add: excerpt_eval)
  from ambiguous_plain_layer_rejected [OF 1 2 3, of 0 3 False] 4 5
  have "excerpt (Text [tokens_layer, variants_layer]) 0 3 None False =
     Inl (NotImplementedError (''ambiguous layer: '' @ name variants_layer))"
    by blast
  then show ?thesis by (simp add: variants_layer_def)
qed

text \<open>
  Counterexample to C9 as stated. The document holds an ambiguous plain layer, yet with
  \<^verbatim>\<open>layers_to_keep\<close> naming the tokens only the layer is skipped (lines 20 to 22) and
  \<^verbatim>\<open>excerpt\<close> returns the new text. And when a sentence layer with an attribute comes
  first, the error raised is the one for the unbound \<^verbatim>\<open>sp\<close>, not a
  \<^verbatim>\<open>NotImplementedError\<close>.
\<close>

theorem ambiguous_plain_layer_counterexample:
  "excerpt (Text [tokens_layer, variants_layer]) 0 3 (Some [''tokens'']) False =
     Inr \<lparr>base_text = ''abc'', list_layers = [Layer tokens_layer [Span 0 3 []]]\<rparr> \<and>
   excerpt (Text [tokens_layer, sentences_layer, variants_layer]) 0 7 None False =
     Inl (UnboundLocalError ''sp'')"
  by (simp add: excerpt_eval)

section \<open>The attributes of an enveloping span\<close>

lemma enveloping_spans_unbound:
  assumes "attrs \<noteq> []"
  shows "\<exists>x\<in>set xs. window t s e' (start_of x) (end_of x) \<noteq> None \<Longrightarrow>
         enveloping_spans attrs t s e' None xs acc = Inl (UnboundLocalError ''sp'')"
proof (induction xs arbitrary: acc)
  case Nil
  then show ?case by simp
next
  case (Cons x xs)
  obtain m out where acc: "acc = (m, out)" by (cases acc)
  show ?case
  proof (cases "window t s e' (start_of x) (end_of x)")
    case None
    with Cons.prems have "\<exists>x\<in>set xs. window t s e' (start_of x) (end_of x) \<noteq> None"
      by auto
    from Cons.IH [OF this] None acc show ?thesis by simp
  next
    case (Some w)
    with assms acc show ?thesis by (simp add: copy_attributes_of_sp_def)
  qed
qed

lemma excerpt_layer_keeps_sp:
  "\<not> (truthy (parent l) \<and> ambiguous l) \<Longrightarrow> excerpt_layer s e' t l st = Inr st' \<Longrightarrow>
   sp st' = sp st"
  by (auto simp: excerpt_layer_def split: if_splits sum.splits prod.splits)

lemma excerpt_layers_keeps_sp:
  "\<forall>p\<in>set pre. kept keep p \<longrightarrow> \<not> (truthy (parent p) \<and> ambiguous p) \<Longrightarrow>
   excerpt_layers s e' keep t pre st = Inr st' \<Longrightarrow> sp st' = sp st"
proof (induction pre arbitrary: st)
  case Nil
  then show ?case by simp
next
  case (Cons x xs)
  show ?case
  proof (cases "kept keep x")
    case False
    with Cons show ?thesis by simp
  next
    case True
    with Cons.prems(2) obtain st1 where
      st1: "excerpt_layer s e' t x st = Inr st1" "excerpt_layers s e' keep t xs st1 = Inr st'"
      by (auto split: sum.splits)
    from Cons.prems(1) True have "\<not> (truthy (parent x) \<and> ambiguous x)" by simp
    from excerpt_layer_keeps_sp [OF this st1(1)] Cons.IH [OF _ st1(2)] Cons.prems(1)
    show ?thesis by simp
  qed
qed

text \<open>
  Claim C10, as amended. Let a kept layer envelop another, be unambiguous and declare at
  least one attribute, let no kept layer listed before it be an ambiguous attached layer,
  and let at least one of its spans pass the window test. Then \<^verbatim>\<open>excerpt\<close> returns an error
  and no new text; when the layers listed before it are processed without error, the
  error is the \<^verbatim>\<open>UnboundLocalError\<close> for \<^verbatim>\<open>sp\<close>, read at line 67 while unbound.
\<close>

theorem enveloping_attributes_read_unbound_sp:
  assumes "list_layers text_obj = pre @ l # post" and "kept layers_to_keep l"
    and "\<not> truthy (parent l)" and "truthy (enveloping l)" and "\<not> ambiguous l"
    and "attributes l \<noteq> []"
    and "\<forall>p\<in>set pre. kept layers_to_keep p \<longrightarrow> \<not> (truthy (parent p) \<and> ambiguous p)"
    and "\<exists>x\<in>set (layer_spans l).
           window trim_overlapping start_pos end_pos (start_of x) (end_of x) \<noteq> None"
  shows "(\<exists>e. excerpt text_obj start_pos end_pos layers_to_keep trim_overlapping = Inl e) \<and>
         (\<forall>st. excerpt_layers start_pos end_pos layers_to_keep trim_overlapping pre
                 initial_state = Inr st \<longrightarrow>
            excerpt text_obj start_pos end_pos layers_to_keep trim_overlapping =
              Inl (UnboundLocalError ''sp''))"
proof -
  have step: "excerpt_layer start_pos end_pos trim_overlapping l st =
      Inl (UnboundLocalError ''sp'')" if "sp st = None" for st
    using assms(3-5) that enveloping_spans_unbound [OF assms(6) assms(8)]
    by (simp add: excerpt_layer_def)
  have ok: "excerpt text_obj start_pos end_pos layers_to_keep trim_overlapping =
              Inl (UnboundLocalError ''sp'')"
    if "excerpt_layers start_pos end_pos layers_to_keep trim_overlapping pre
          initial_state = Inr st" for st
  proof -
    from excerpt_layers_keeps_sp [OF assms(7) that] have "sp st = None"
      by (simp add: initial_state_def)
    from excerpt_layers_first_error [OF that assms(2) step [OF this], of post] assms(1)
    show ?thesis by (simp add: excerpt_def)
  qed
  have "\<exists>e. excerpt text_obj start_pos end_pos layers_to_keep trim_overlapping = Inl e"
  proof (cases "excerpt_layers start_pos end_pos layers_to_keep trim_overlapping pre
                  initial_state")
    case (Inl e)
    then show ?thesis using assms(1)
      by (simp add: excerpt_def excerpt_layers_append)
  next
    case (Inr st)
    from ok [OF this] show ?thesis by blast
  qed
  with ok show ?thesis by blast
qed

text \<open>
  Witness for C10: the whole text is the window, the sentence passes the window test and
  its attribute is read from the unbound \<^verbatim>\<open>sp\<close>.
\<close>

theorem enveloping_attributes_read_unbound_sp_witness:
  "excerpt (Text [tokens_layer, sentences_layer]) 0 7 None False =
     Inl (UnboundLocalError ''sp'')"
proof -
  have 1: "list_layers (Text [tokens_layer, sentences_layer]) =
      [tokens_layer] @ sentences_layer # []"
    by (simp add: Text_def)
  have 2: "kept None sentences_layer" by (simp add: kept_def)
  have 3: "\<not> truthy (parent sentences_layer)" "truthy (enveloping sentences_layer)"
    "\<not> ambiguous sentences_layer" "attributes sentences_layer \<noteq> []"
    by (simp_all add: sentences_layer_def truthy_def)
  have 4: "\<forall>p\<in>set [tokens_layer]. kept None p \<longrightarrow> \<not> (truthy (parent p) \<and> ambiguous p)"
    by (simp add: tokens_layer_def truthy_def)
  have 5: "\<exists>x\<in>set (layer_spans sentences_layer).
      window False 0 7 (start_of x) (end_of x) \<noteq> None"
    by (simp add: sentences_layer_def window_def)
  have 6: "excerpt_layers 0 7 None False [tokens_layer] initial_state =
     Inr \<lparr>map_spans = [1 \<mapsto> Span 0 3 [], 2 \<mapsto> Span 4 7 []], sp = None,
          new_layers = [Layer tokens_layer [Span 0 3 [], Span 4 7 []]]\<rparr>"
    by (simp add: excerpt_eval)
  from enveloping_attributes_read_unbound_sp [OF 1 2 3 4 5] 6
  show ?thesis by blast
qed

text \<open>
  Counterexample to C10 as stated: the window from 0 to 3 holds the first token only, the
  sentence crosses the window's end and is skipped before any attribute is read, and
  \<^verbatim>\<open>excerpt\<close> returns the new text with an empty sentence layer.
\<close>

theorem enveloping_attributes_counterexample:
  "kept None sentences_layer \<and> \<not> ambiguous sentences_layer \<and>
   truthy (enveloping sentences_layer) \<and> attributes sentences_layer = [''kind''] \<and>
   excerpt (Text [tokens_layer, sentences_layer]) 0 3 None False =
     Inr \<lparr>base_text = ''abc'',
          list_layers = [Layer tokens_layer [Span 0 3 []], Layer sentences_layer []]\<rparr>"
  by (simp add: excerpt_eval)

section \<open>Attached layers\<close>







end
